theory Spec2Isabelle
  imports Complex_Main "HOL-Library.Sublist"
begin

section \<open>Errors raised by the program\<close>

text \<open>
  The Python exceptions that the modelled functions raise. A function that can raise
  returns \<open>py_error + 'a\<close>, with \<open>Inl\<close> carrying the exception.
\<close>

datatype py_error =
    ZeroDivisionError
  | ValueError string
  | TypeError string
  | AttributeError string
  | FileNotFoundError string


section \<open>Python string operations used by the program\<close>

text \<open>
  A character of the model is one of the 256 values of an 8-bit character, read as the
  code point of that number; text with code points from 256 on is outside the model. On
  these code points \<open>str.isspace\<close> holds for the twelve characters below, and the
  regular expression class \<open>\w\<close> is the underscore and the characters for which
  \<open>str.isalnum\<close> holds: the ASCII letters and digits and the letters, superscript
  digits and fractions between \<open>0xAA\<close> and \<open>0xFF\<close> listed below.
\<close>

definition whitespace_chars :: string where
  "whitespace_chars =
     [CHR 0x09, CHR 0x0A, CHR 0x0B, CHR 0x0C, CHR 0x0D, CHR 0x1C, CHR 0x1D, CHR 0x1E, CHR 0x1F,
      CHR 0x20, CHR 0x85, CHR 0xA0]"

definition is_space :: "char \<Rightarrow> bool" where
  "is_space c = (c \<in> set whitespace_chars)"

text \<open>\<open>s.strip()\<close>: leading and trailing whitespace removed.\<close>

definition strip :: "string \<Rightarrow> string" where
  "strip s = rev (dropWhile is_space (rev (dropWhile is_space s)))"

definition latin1_word_chars :: string where
  "latin1_word_chars =
     [CHR 0xAA, CHR 0xB2, CHR 0xB3, CHR 0xB5, CHR 0xB9, CHR 0xBA, CHR 0xBC, CHR 0xBD,
      CHR 0xBE, CHR 0xC0, CHR 0xC1, CHR 0xC2, CHR 0xC3, CHR 0xC4, CHR 0xC5, CHR 0xC6,
      CHR 0xC7, CHR 0xC8, CHR 0xC9, CHR 0xCA, CHR 0xCB, CHR 0xCC, CHR 0xCD, CHR 0xCE,
      CHR 0xCF, CHR 0xD0, CHR 0xD1, CHR 0xD2, CHR 0xD3, CHR 0xD4, CHR 0xD5, CHR 0xD6,
      CHR 0xD8, CHR 0xD9, CHR 0xDA, CHR 0xDB, CHR 0xDC, CHR 0xDD, CHR 0xDE, CHR 0xDF,
      CHR 0xE0, CHR 0xE1, CHR 0xE2, CHR 0xE3, CHR 0xE4, CHR 0xE5, CHR 0xE6, CHR 0xE7,
      CHR 0xE8, CHR 0xE9, CHR 0xEA, CHR 0xEB, CHR 0xEC, CHR 0xED, CHR 0xEE, CHR 0xEF,
      CHR 0xF0, CHR 0xF1, CHR 0xF2, CHR 0xF3, CHR 0xF4, CHR 0xF5, CHR 0xF6, CHR 0xF8,
      CHR 0xF9, CHR 0xFA, CHR 0xFB, CHR 0xFC, CHR 0xFD, CHR 0xFE, CHR 0xFF]"

definition word_chars :: string where
  "word_chars =
     ''abcdefghijklmnopqrstuvwxyz'' @ ''ABCDEFGHIJKLMNOPQRSTUVWXYZ'' @ ''0123456789'' @ ''_''
     @ latin1_word_chars"

definition is_word_char :: "char \<Rightarrow> bool" where
  "is_word_char c = (c \<in> set word_chars)"

text \<open>
  \<open>s.replace(old, new)\<close>: every occurrence of \<open>old\<close>, found from left to right without
  overlap, becomes \<open>new\<close>. When \<open>old\<close> is a prefix of \<open>c # cs\<close> the scan resumes
  \<open>length old\<close> characters further, that is at \<open>drop (length old - 1) cs\<close>. For an
  empty \<open>old\<close> Python puts \<open>new\<close> before every character and at the end.
\<close>

fun str_replace :: "string \<Rightarrow> string \<Rightarrow> string \<Rightarrow> string" where
  "str_replace old new [] = (if old = [] then new else [])"
| "str_replace old new (c # cs) =
     (if old = [] then new @ c # str_replace old new cs
      else if prefix old (c # cs) then new @ str_replace old new (drop (length old - 1) cs)
      else c # str_replace old new cs)"

text \<open>
  \<open>re.findall(r'\{(\w+)\}', s)\<close>: the scan goes from left to right; at an opening brace
  followed by one or more word characters and a closing brace the name is collected and the
  scan resumes after the closing brace; anywhere else it moves one character on. The run
  \<open>\w+\<close> is the longest one: a shorter run is followed by a word character, never by
  the closing brace.
\<close>

function findall_placeholders :: "string \<Rightarrow> string list" where
  "findall_placeholders [] = []"
| "findall_placeholders (c # cs) =
     (if c = CHR ''{'' \<and> takeWhile is_word_char cs \<noteq> []
         \<and> dropWhile is_word_char cs \<noteq> [] \<and> hd (dropWhile is_word_char cs) = CHR ''}''
      then takeWhile is_word_char cs # findall_placeholders (tl (dropWhile is_word_char cs))
      else findall_placeholders cs)"
  by pat_completeness auto
termination
proof (relation "measure length")
  fix c :: char and cs :: string
  have "length (dropWhile is_word_char cs) \<le> length cs"
    by (rule length_dropWhile_le)
  then have "length (tl (dropWhile is_word_char cs)) \<le> length cs"
    by simp
  then show "(tl (dropWhile is_word_char cs), c # cs) \<in> measure length"
    by simp
qed simp_all




text \<open>\<open>x or dflt\<close> on an optional string: \<open>None\<close> and the empty string are falsy.\<close>

definition py_or :: "string option \<Rightarrow> string \<Rightarrow> string" where
  "py_or x dflt = (case x of None \<Rightarrow> dflt | Some s \<Rightarrow> if s = [] then dflt else s)"

section \<open>Data models (core/models.py)\<close>

record Recipient =
  first_name :: string
  last_name :: string
  profile_url :: string
  company :: "string option"
  position :: "string option"
  location :: "string option"

text \<open>
  \<open>re.match(r'^https?://(www\.)?linkedin\.com/in/[\w-]+/?$', url)\<close>. Each optional part
  is decided by the next character, so the match reads the string once from the left;
  \<open>$\<close> accepts the end of the string and the position before a final newline.
\<close>

definition strip_prefix :: "string \<Rightarrow> string \<Rightarrow> string option" where
  "strip_prefix p s = (if prefix p s then Some (drop (length p) s) else None)"

definition is_slug_char :: "char \<Rightarrow> bool" where
  "is_slug_char c = (is_word_char c \<or> c = CHR ''-'')"

definition is_valid_url :: "string \<Rightarrow> bool" where
  "is_valid_url url =
     (case strip_prefix ''http'' url of
        None \<Rightarrow> False
      | Some r1 \<Rightarrow>
          (case strip_prefix ''://'' (case strip_prefix ''s'' r1 of Some t \<Rightarrow> t | None \<Rightarrow> r1) of
             None \<Rightarrow> False
           | Some r3 \<Rightarrow>
               (case strip_prefix ''linkedin.com/in/''
                       (case strip_prefix ''www.'' r3 of Some t \<Rightarrow> t | None \<Rightarrow> r3) of
                  None \<Rightarrow> False
                | Some r5 \<Rightarrow>
                    takeWhile is_slug_char r5 \<noteq> []
                    \<and> dropWhile is_slug_char r5
                        \<in> set [[], ''/'', [CHR 0x0A], [CHR ''/'', CHR 0x0A]])))"

text \<open>
  The constructor of the dataclass followed by \<open>__post_init__\<close>: the four checks in the
  order of the source, each raising \<open>ValueError\<close>.
\<close>

definition Recipient_init ::
  "string \<Rightarrow> string \<Rightarrow> string \<Rightarrow> string option \<Rightarrow> string option \<Rightarrow> string option
     \<Rightarrow> py_error + Recipient" where
  "Recipient_init fname lname url co po lo =
     (if fname = [] \<or> strip fname = [] then Inl (ValueError ''First name is required'')
      else if lname = [] \<or> strip lname = [] then Inl (ValueError ''Last name is required'')
      else if url = [] \<or> strip url = [] then Inl (ValueError ''Profile URL is required'')
      else if \<not> is_valid_url url then Inl (ValueError (''Invalid LinkedIn profile URL: '' @ url))
      else Inr \<lparr>first_name = fname, last_name = lname, profile_url = url,
                company = co, position = po, location = lo\<rparr>)"

definition full_name :: "Recipient \<Rightarrow> string" where
  "full_name r = first_name r @ '' '' @ last_name r"

datatype log_status = Sent | Failed | Skipped

text \<open>The timestamp of a log entry is the wall clock and is left out.\<close>

record MessageLog =
  recipient_name :: string
  log_profile_url :: string
  status :: log_status
  error_message :: "string option"
  template_used :: "string option"
  message_content :: "string option"

record Config =
  linkedin_email :: string
  linkedin_password :: string
  message_templates :: "string list"
  daily_limit :: int
  session_limit :: int
  max_connections :: int
  min_delay :: int
  max_delay :: int
  typing_speed :: int
  page_load_min :: int
  page_load_max :: int
  log_level :: string
  log_file :: string
  enable_circuit_breaker :: bool
  max_consecutive_failures :: int
  retry_attempts :: int

section \<open>Delay policy (utils/throttling.py)\<close>

text \<open>
  Python floats are idealised as real numbers: rounding is not modelled. The pseudo-random
  generator is not part of the repository; a draw of \<open>random.random()\<close>, a number in
  \<open>[0, 1)\<close>, is passed to each function as the argument \<open>u\<close>, and
  \<open>random.uniform(a, b)\<close> is the standard library's \<open>a + (b - a) * random()\<close>.
\<close>

definition uniform :: "real \<Rightarrow> real \<Rightarrow> real \<Rightarrow> real" where
  "uniform a b u = a + (b - a) * u"

record Throttler =
  min_delay :: int
  max_delay :: int
  typing_speed :: int
  page_load_min :: int
  page_load_max :: int

text \<open>\<open>Throttler.__init__\<close> with its default arguments.\<close>

definition Throttler_init :: "int \<Rightarrow> int \<Rightarrow> int \<Rightarrow> int \<times> int \<Rightarrow> Throttler" where
  "Throttler_init mn mx ts page_load_range =
     \<lparr>min_delay = mn, max_delay = mx, typing_speed = ts,
      page_load_min = fst page_load_range, page_load_max = snd page_load_range\<rparr>"

definition Throttler_default :: Throttler where
  "Throttler_default = Throttler_init 30 120 5 (2, 5)"

definition human_delay :: "Throttler \<Rightarrow> real \<Rightarrow> real" where
  "human_delay t u = uniform (real_of_int (min_delay t)) (real_of_int (max_delay t)) u"

text \<open>
  \<open>message_length / self.typing_speed\<close> is Python's true division: it raises
  \<open>ZeroDivisionError\<close> when the divisor is zero and never yields an infinity.
\<close>

definition py_truediv :: "int \<Rightarrow> int \<Rightarrow> py_error + real" where
  "py_truediv a b =
     (if b = 0 then Inl ZeroDivisionError else Inr (real_of_int a / real_of_int b))"

definition typing_delay :: "Throttler \<Rightarrow> int \<Rightarrow> real \<Rightarrow> py_error + real" where
  "typing_delay t message_length u =
     (case py_truediv message_length (typing_speed t) of
        Inl e \<Rightarrow> Inl e
      | Inr base_delay \<Rightarrow>
          (let variance = base_delay * uniform (- (2 / 10)) (2 / 10) u
           in Inr (base_delay + variance)))"

text \<open>
  The body of \<open>typing_delay\<close> with the operator \<open>/\<close> left open: \<open>division\<close> stands for
  it. The body has no test of the divisor and no \<open>try\<close>, so what the division raises
  is what the call raises. \<open>typing_delay\<close> above is this body with Python's division.
\<close>

definition typing_delay_with ::
  "(int \<Rightarrow> int \<Rightarrow> py_error + real) \<Rightarrow> Throttler \<Rightarrow> int \<Rightarrow> real \<Rightarrow> py_error + real" where
  "typing_delay_with division t message_length u =
     (case division message_length (typing_speed t) of
        Inl e \<Rightarrow> Inl e
      | Inr base_delay \<Rightarrow>
          (let variance = base_delay * uniform (- (2 / 10)) (2 / 10) u
           in Inr (base_delay + variance)))"

text \<open>
  For comparison, a division that makes no check: at a zero divisor it yields the number
  \<open>at_zero\<close>, standing for an infinity, where Python raises.
\<close>

definition unchecked_div :: "real \<Rightarrow> int \<Rightarrow> int \<Rightarrow> py_error + real" where
  "unchecked_div at_zero a b = Inr (if b = 0 then at_zero else real_of_int a / real_of_int b)"

definition stalled_throttler :: Throttler where
  "stalled_throttler = Throttler_init 30 120 0 (2, 5)"

definition page_load_delay :: "Throttler \<Rightarrow> real \<Rightarrow> real" where
  "page_load_delay t u = uniform (real_of_int (page_load_min t)) (real_of_int (page_load_max t)) u"

text \<open>
  \<open>2 ** attempt\<close> on Python integers: an integer power for a non-negative exponent,
  the float \<open>1 / 2 ** (-attempt)\<close> for a negative one.
\<close>

definition py_pow2 :: "int \<Rightarrow> real" where
  "py_pow2 n = (if 0 \<le> n then 2 ^ nat n else 1 / 2 ^ nat (- n))"

text \<open>The local variable \<open>delay\<close> of \<open>exponential_backoff\<close>, before the jitter.\<close>

definition backoff_delay :: "int \<Rightarrow> int \<Rightarrow> int \<Rightarrow> real" where
  "backoff_delay attempt base_delay mx =
     min (real_of_int base_delay * py_pow2 attempt) (real_of_int mx)"

definition exponential_backoff :: "int \<Rightarrow> int \<Rightarrow> int \<Rightarrow> real \<Rightarrow> real" where
  "exponential_backoff attempt base_delay mx u =
     (let delay = backoff_delay attempt base_delay mx;
          jitter = delay * uniform 0 (1 / 10) u
      in delay + jitter)"

section \<open>Template engine (utils/placeholders.py)\<close>

definition SUPPORTED_PLACEHOLDERS :: "string list" where
  "SUPPORTED_PLACEHOLDERS = [''first_name'', ''last_name'', ''company'', ''position'', ''location'']"

text \<open>The dictionary \<open>replacements\<close>, as its items in insertion order.\<close>

definition replacements :: "Recipient \<Rightarrow> (string \<times> string) list" where
  "replacements recipient =
     [(''first_name'', first_name recipient),
      (''last_name'', last_name recipient),
      (''company'', py_or (company recipient) ''your company''),
      (''position'', py_or (position recipient) ''your field''),
      (''location'', py_or (location recipient) ''your area'')]"

text \<open>The f-string \<open>f'{{{placeholder}}}'\<close>: the name between braces.\<close>

definition pattern_of :: "string \<Rightarrow> string" where
  "pattern_of placeholder = CHR ''{'' # placeholder @ ''}''"

text \<open>
  The loop \<open>for placeholder, value in replacements.items()\<close>: one \<open>str.replace\<close> over the
  whole message for each item, each on the result of the one before.
\<close>

definition replace_placeholders :: "string \<Rightarrow> Recipient \<Rightarrow> string" where
  "replace_placeholders template recipient =
     fold (\<lambda>(placeholder, v) message. str_replace (pattern_of placeholder) v message)
       (replacements recipient) template"

definition validate_placeholders :: "string \<Rightarrow> string list" where
  "validate_placeholders template =
     filter (\<lambda>p. p \<notin> set SUPPORTED_PLACEHOLDERS) (findall_placeholders template)"

definition get_available_placeholders :: "string list" where
  "get_available_placeholders = SUPPORTED_PLACEHOLDERS"

section \<open>Recipient source (utils/csv_handler.py)\<close>




text \<open>
  The field \<open>csv_file\<close> is a \<open>Path\<close> in the source; the model keeps the string that
  \<open>str\<close> gives for it, and \<open>CSVHandler_init\<close> takes that string: what \<open>pathlib\<close>
  does to the spelling of a path is outside the repository.
\<close>

record CSVHandler =
  csv_file :: string
  max_connections :: int











section \<open>Message delivery (core/messenger.py)\<close>

text \<open>
  The browser and the random generator are outside the repository. One value of
  \<open>environment\<close> holds what they answer while one recipient is processed: the template
  that \<open>random.choice\<close> picks, an exception escaping inside the \<open>try\<close> block of
  \<open>send_message\<close> (if any), the results of the three browser steps, and the draw behind
  the pause that follows.
\<close>

record environment =
  template_choice :: nat
  raised :: "string option"
  navigated :: bool
  message_button :: bool
  typed_and_sent :: bool
  delay_draw :: real

text \<open>\<open>MessageTemplate.__init__\<close> refuses an empty list of templates.\<close>

definition MessageTemplate_init :: "string list \<Rightarrow> py_error + string list" where
  "MessageTemplate_init templates =
     (if templates = [] then Inl (ValueError ''At least one template is required'')
      else Inr templates)"

definition apply_template :: "string list \<Rightarrow> nat \<Rightarrow> Recipient \<Rightarrow> string" where
  "apply_template templates choice recipient =
     replace_placeholders (templates ! (choice mod length templates)) recipient"

record MessageSender =
  template_manager :: "string list"
  messages_sent :: int

definition MessageSender_init :: "string list \<Rightarrow> MessageSender" where
  "MessageSender_init templates = \<lparr>template_manager = templates, messages_sent = 0\<rparr>"

definition validate_recipient :: "Recipient \<Rightarrow> bool" where
  "validate_recipient recipient = True"

definition get_message_count :: "MessageSender \<Rightarrow> int" where
  "get_message_count ms = messages_sent ms"

text \<open>
  \<open>send_message\<close> returns the sender, whose counter grows on success only, and the
  triple \<open>(success, message_content, error_message)\<close>.
\<close>

definition send_message ::
  "MessageSender \<Rightarrow> environment \<Rightarrow> Recipient
     \<Rightarrow> MessageSender \<times> bool \<times> string option \<times> string option" where
  "send_message ms e recipient =
     (case raised e of
        Some err \<Rightarrow> (ms, False, None, Some err)
      | None \<Rightarrow>
          if \<not> validate_recipient recipient then (ms, False, None, Some ''Invalid recipient data'')
          else
            (let message = apply_template (template_manager ms) (template_choice e) recipient in
             if \<not> navigated e then (ms, False, Some message, Some ''Failed to navigate to profile'')
             else if \<not> message_button e
               then (ms, False, Some message, Some ''Could not find message button'')
             else if \<not> typed_and_sent e then (ms, False, Some message, Some ''Failed to send message'')
             else (ms\<lparr>messages_sent := messages_sent ms + 1\<rparr>, True, Some message, None)))"

section \<open>Activity log (core/logger.py)\<close>

definition log_message_sent :: "MessageLog list \<Rightarrow> Recipient \<Rightarrow> string option \<Rightarrow> MessageLog list"
  where
  "log_message_sent lg recipient content =
     lg @ [\<lparr>recipient_name = full_name recipient, log_profile_url = profile_url recipient,
            status = Sent, error_message = None, template_used = None,
            message_content = content\<rparr>]"

definition log_message_failed ::
  "MessageLog list \<Rightarrow> Recipient \<Rightarrow> string \<Rightarrow> string option \<Rightarrow> MessageLog list" where
  "log_message_failed lg recipient err content =
     lg @ [\<lparr>recipient_name = full_name recipient, log_profile_url = profile_url recipient,
            status = Failed, error_message = Some err, template_used = None,
            message_content = content\<rparr>]"

section \<open>Orchestrator (main.py)\<close>

text \<open>
  What \<open>_send_messages\<close> changes: the failure counter of the orchestrator, the message
  sender, the list of log entries of the logger, and, as a history of the run, the calls
  made to \<open>send_message\<close> and to \<open>wait_human_delay\<close> in their order.
\<close>

datatype call = SendMessage Recipient | WaitHumanDelay real

record send_state =
  consecutive_failures :: int
  messenger :: MessageSender
  logs :: "MessageLog list"
  calls :: "call list"

text \<open>
  The state at the start of the loop: the counter as \<open>OutreachOrchestrator.__init__\<close>
  sets it, a new message sender, the empty log of a new logger.
\<close>

definition initial_state :: "string list \<Rightarrow> send_state" where
  "initial_state templates =
     \<lparr>consecutive_failures = 0, messenger = MessageSender_init templates, logs = [], calls = []\<rparr>"

definition initialize_components :: "Config \<Rightarrow> Throttler" where
  "initialize_components cfg =
     Throttler_init (Config.min_delay cfg) (Config.max_delay cfg) (Config.typing_speed cfg)
       (Config.page_load_min cfg, Config.page_load_max cfg)"

definition check_circuit_breaker :: "Config \<Rightarrow> send_state \<Rightarrow> bool" where
  "check_circuit_breaker cfg s =
     (if \<not> enable_circuit_breaker cfg then False
      else max_consecutive_failures cfg \<le> consecutive_failures s)"

text \<open>
  The body of the loop after the two checks, for the recipient at position \<open>idx\<close>
  (counted from 1) of \<open>n\<close>: send, log and count, then pause.
\<close>

definition process_recipient ::
  "Throttler \<Rightarrow> environment \<Rightarrow> nat \<Rightarrow> nat \<Rightarrow> Recipient \<Rightarrow> send_state \<Rightarrow> send_state" where
  "process_recipient thr e n idx recipient s =
     (case send_message (messenger s) e recipient of
        (ms, success, message, error) \<Rightarrow>
          (let s1 = s\<lparr>messenger := ms, calls := calls s @ [SendMessage recipient]\<rparr>;
               s2 = (if success
                     then s1\<lparr>logs := log_message_sent (logs s1) recipient message,
                            consecutive_failures := 0\<rparr>
                     else s1\<lparr>logs := log_message_failed (logs s1) recipient
                                      (py_or error ''Unknown error'') message,
                            consecutive_failures := consecutive_failures s1 + 1\<rparr>)
           in if idx < n \<and> success
              then s2\<lparr>calls := calls s2 @ [WaitHumanDelay (human_delay thr (delay_draw e))]\<rparr>
              else s2))"

fun send_loop ::
  "Config \<Rightarrow> Throttler \<Rightarrow> (nat \<Rightarrow> environment) \<Rightarrow> nat \<Rightarrow> nat \<Rightarrow> Recipient list \<Rightarrow> send_state
     \<Rightarrow> send_state" where
  "send_loop cfg thr env n idx [] s = s"
| "send_loop cfg thr env n idx (recipient # rest) s =
     (if session_limit cfg \<le> get_message_count (messenger s) then s
      else if check_circuit_breaker cfg s then s
      else send_loop cfg thr env n (Suc idx) rest
             (process_recipient thr (env idx) n idx recipient s))"

definition send_messages ::
  "Config \<Rightarrow> Throttler \<Rightarrow> (nat \<Rightarrow> environment) \<Rightarrow> Recipient list \<Rightarrow> py_error + send_state" where
  "send_messages cfg thr env recipients =
     (case MessageTemplate_init (message_templates cfg) of
        Inl e \<Rightarrow> Inl e
      | Inr templates \<Rightarrow>
          Inr (send_loop cfg thr env (length recipients) 1 recipients (initial_state templates)))"

section \<open>Observations on a run and sample data\<close>

text \<open>The recipients handed to \<open>send_message\<close> and the number of pauses, read off the history.\<close>

fun attempted :: "call list \<Rightarrow> Recipient list" where
  "attempted [] = []"
| "attempted (SendMessage r # cs) = r # attempted cs"
| "attempted (WaitHumanDelay d # cs) = attempted cs"

fun wait_count :: "call list \<Rightarrow> nat" where
  "wait_count [] = 0"
| "wait_count (SendMessage r # cs) = wait_count cs"
| "wait_count (WaitHumanDelay d # cs) = Suc (wait_count cs)"

definition sent_count :: "MessageLog list \<Rightarrow> nat" where
  "sent_count lg = length (filter (\<lambda>l. status l = Sent) lg)"

text \<open>An environment in which the delivery goes through.\<close>

definition succeeds :: "environment \<Rightarrow> bool" where
  "succeeds e = (raised e = None \<and> navigated e \<and> message_button e \<and> typed_and_sent e)"

text \<open>The success flag of the triple that \<open>send_message\<close> returns.\<close>

definition delivered :: "MessageSender \<Rightarrow> environment \<Rightarrow> Recipient \<Rightarrow> bool" where
  "delivered ms e recipient = fst (snd (send_message ms e recipient))"

text \<open>Sample data: the two rows of \<open>create_sample_csv\<close> and a small configuration.\<close>

definition john :: Recipient where
  "john = \<lparr>first_name = ''John'', last_name = ''Doe'',
            profile_url = ''https://www.linkedin.com/in/johndoe/'',
            company = Some ''TechCorp'', position = Some ''Software Engineer'',
            location = Some ''San Francisco, CA''\<rparr>"

definition jane :: Recipient where
  "jane = \<lparr>first_name = ''Jane'', last_name = ''Smith'',
            profile_url = ''https://www.linkedin.com/in/janesmith/'',
            company = Some ''DataCo'', position = Some ''Data Scientist'',
            location = Some ''New York, NY''\<rparr>"

definition sample_config :: Config where
  "sample_config =
     \<lparr>linkedin_email = ''user@example.com'', linkedin_password = ''secret'',
      message_templates = [''Hi {first_name}!''],
      daily_limit = 20, session_limit = 3, max_connections = 10,
      min_delay = 30, max_delay = 120, typing_speed = 5, page_load_min = 2, page_load_max = 5,
      log_level = ''INFO'', log_file = ''data/logs.csv'',
      enable_circuit_breaker = True, max_consecutive_failures = 3, retry_attempts = 3\<rparr>"

definition env_ok :: environment where
  "env_ok = \<lparr>template_choice = 0, raised = None, navigated = True, message_button = True,
              typed_and_sent = True, delay_draw = 1 / 2\<rparr>"

definition env_fail :: environment where
  "env_fail = env_ok\<lparr>navigated := False\<rparr>"

definition sample_throttler :: Throttler where
  "sample_throttler = initialize_components sample_config"

definition five_recipients :: "Recipient list" where
  "five_recipients = [john, jane, john, jane, john]"

text \<open>Two runs over the five recipients: every delivery succeeds; only the second does.\<close>

definition env_second_ok :: "nat \<Rightarrow> environment" where
  "env_second_ok i = (if i = 2 then env_ok else env_fail)"

definition run_all_ok :: send_state where
  "run_all_ok =
     send_loop sample_config sample_throttler (\<lambda>i. env_ok) 5 1 five_recipients
       (initial_state (message_templates sample_config))"

definition run_second_ok :: send_state where
  "run_second_ok =
     send_loop sample_config sample_throttler env_second_ok 5 1 five_recipients
       (initial_state (message_templates sample_config))"

text \<open>
  The calls expected for the recipient at position \<open>idx\<close> (counted from 1) of \<open>n\<close>: the
  call of \<open>send_message\<close>, followed by a pause exactly when the delivery goes through and
  the recipient is not the last. The calls expected of a run that attempts the first
  \<open>k\<close> recipients are those of each of them in turn.
\<close>

definition calls_for :: "Throttler \<Rightarrow> (nat \<Rightarrow> environment) \<Rightarrow> nat \<Rightarrow> nat \<Rightarrow> Recipient \<Rightarrow> call list"
  where
  "calls_for thr env n idx r =
     SendMessage r
       # (if succeeds (env idx) \<and> idx < n
          then [WaitHumanDelay (human_delay thr (delay_draw (env idx)))] else [])"

definition expected_calls ::
  "Throttler \<Rightarrow> (nat \<Rightarrow> environment) \<Rightarrow> Recipient list \<Rightarrow> nat \<Rightarrow> call list" where
  "expected_calls thr env recipients k =
     concat (map (\<lambda>i. calls_for thr env (length recipients) (Suc i) (recipients ! i)) [0..<k])"

text \<open>A run over three recipients with a session limit of 5, every delivery succeeding.\<close>

definition relaxed_config :: Config where
  "relaxed_config = sample_config\<lparr>session_limit := 5\<rparr>"

definition three_recipients :: "Recipient list" where
  "three_recipients = [john, jane, john]"

definition run_three_ok :: send_state where
  "run_three_ok =
     send_loop relaxed_config sample_throttler (\<lambda>i. env_ok) 3 1 three_recipients
       (initial_state (message_templates relaxed_config))"














section \<open>Reference notions for the template engine\<close>

text \<open>
  Simultaneous substitution, following the words of the specification: the template is
  read once from left to right; where the pattern of an item stands, the value of the
  first such item is written and the reading resumes after the pattern; any other
  character is copied. Text written by a substitution is never read again.
\<close>

fun simultaneous_substitution :: "(string \<times> string) list \<Rightarrow> string \<Rightarrow> string" where
  "simultaneous_substitution items [] = []"
| "simultaneous_substitution items (c # cs) =
     (case find (\<lambda>(placeholder, v). prefix (pattern_of placeholder) (c # cs)) items of
        Some (placeholder, v) \<Rightarrow>
          v @ simultaneous_substitution items (drop (length placeholder + 1) cs)
      | None \<Rightarrow> c # simultaneous_substitution items cs)"

text \<open>
  A template given by its parts: literal text and placeholders \<open>{name}\<close>. It is well
  formed when no literal and no name contains a brace, so that the braces of the rendered
  string are exactly those of its placeholders.
\<close>

datatype template_part = Literal string | Placeholder string

fun render_part :: "template_part \<Rightarrow> string" where
  "render_part (Literal s) = s"
| "render_part (Placeholder name) = pattern_of name"

definition render :: "template_part list \<Rightarrow> string" where
  "render parts = concat (map render_part parts)"

definition brace_free :: "string \<Rightarrow> bool" where
  "brace_free s = (CHR ''{'' \<notin> set s \<and> CHR ''}'' \<notin> set s)"

fun well_formed_part :: "template_part \<Rightarrow> bool" where
  "well_formed_part (Literal s) = brace_free s"
| "well_formed_part (Placeholder name) = brace_free name"

definition well_formed :: "template_part list \<Rightarrow> bool" where
  "well_formed parts = list_all well_formed_part parts"

text \<open>
  The text expected for one part: the field of the recipient for a name of the fixed
  vocabulary, with the default phrase for an optional field that is absent or empty; the
  part itself otherwise.
\<close>

fun fill :: "Recipient \<Rightarrow> template_part \<Rightarrow> string" where
  "fill r (Literal s) = s"
| "fill r (Placeholder name) =
     (if name = ''first_name'' then first_name r
      else if name = ''last_name'' then last_name r
      else if name = ''company'' then py_or (company r) ''your company''
      else if name = ''position'' then py_or (position r) ''your field''
      else if name = ''location'' then py_or (location r) ''your area''
      else pattern_of name)"

text \<open>The names that \<open>re.findall\<close> reports for a well-formed template.\<close>

fun placeholder_names :: "template_part list \<Rightarrow> string list" where
  "placeholder_names [] = []"
| "placeholder_names (Literal s # parts) = placeholder_names parts"
| "placeholder_names (Placeholder name # parts) =
     (if name \<noteq> [] \<and> list_all is_word_char name then name # placeholder_names parts
      else placeholder_names parts)"

text \<open>Recipients whose fields hold text shaped like a placeholder, and one that does not.\<close>

definition injected :: Recipient where
  "injected = john\<lparr>first_name := ''{company}'', company := Some ''Acme''\<rparr>"

definition injected_back :: Recipient where
  "injected_back = john\<lparr>company := Some ''{first_name}''\<rparr>"

definition injected_location :: Recipient where
  "injected_location = john\<lparr>first_name := ''{location}'', location := Some ''Paris''\<rparr>"

definition anonymous :: Recipient where
  "anonymous = john\<lparr>company := None, position := None, location := None\<rparr>"

text \<open>One pass of the loop seen on the parts: the placeholder \<open>name\<close> becomes the text \<open>v\<close>.\<close>

definition substitute_part :: "string \<Rightarrow> string \<Rightarrow> template_part \<Rightarrow> template_part" where
  "substitute_part name v p = (if p = Placeholder name then Literal v else p)"

text \<open>No value that the loop substitutes for this recipient contains a brace.\<close>

definition plain_values :: "Recipient \<Rightarrow> bool" where
  "plain_values r = list_all (\<lambda>(placeholder, v). brace_free v) (replacements r)"

definition greeting :: "template_part list" where
  "greeting =
     [Literal ''Hi '', Placeholder ''first_name'', Literal '' from '', Placeholder ''company'',
      Literal '', '', Placeholder ''nickname'', Literal ''!'']"

section \<open>Properties of the delay policy\<close>

lemma uniform_bounds:
  assumes "a \<le> b" and "0 \<le> u" and "u < 1"
  shows "a \<le> uniform a b u" and "uniform a b u \<le> b"
proof -
  have "0 \<le> (b - a) * u"
    using assms by simp
  then show "a \<le> uniform a b u"
    by (simp add: uniform_def)
  have "(b - a) * u \<le> (b - a) * 1"
    using assms by (intro mult_left_mono) simp_all
  then show "uniform a b u \<le> b"
    by (simp add: uniform_def)
qed

lemma py_pow2_mono:
  assumes "0 \<le> a" and "a \<le> b"
  shows "py_pow2 a \<le> py_pow2 b"
proof -
  have "nat a \<le> nat b"
    using assms by simp
  then have "(2::real) ^ nat a \<le> 2 ^ nat b"
    by (intro power_increasing) simp_all
  then show ?thesis
    using assms by (simp add: py_pow2_def)
qed

lemma backoff_delay_mono:
  assumes "0 \<le> a" and "a \<le> b" and "0 < base_delay"
  shows "backoff_delay a base_delay mx \<le> backoff_delay b base_delay mx"
proof -
  have "real_of_int base_delay * py_pow2 a \<le> real_of_int base_delay * py_pow2 b"
    using assms py_pow2_mono [of a b] by (intro mult_left_mono) simp_all
  then show ?thesis
    unfolding backoff_delay_def by (intro min.mono) simp_all
qed

lemma backoff_delay_le_cap: "backoff_delay a base_delay mx \<le> real_of_int mx"
  by (simp add: backoff_delay_def)

lemma backoff_delay_pos:
  assumes "0 < base_delay" and "0 < mx"
  shows "0 < backoff_delay a base_delay mx"
proof -
  have "0 < py_pow2 a"
    by (simp add: py_pow2_def)
  then have "0 < real_of_int base_delay * py_pow2 a"
    using assms by simp
  then show ?thesis
    using assms by (simp add: backoff_delay_def)
qed

text \<open>
  Claim C1. For a non-negative attempt, positive \<open>base_delay\<close> and \<open>max_delay\<close> and any
  draw, \<open>exponential_backoff\<close> lies between \<open>raw\<close> and \<open>raw * 1.1\<close>, where
  \<open>raw = min (base_delay * 2 ^ attempt) max_delay\<close>; so it does for the defaults 5 and 300;
  and \<open>raw\<close> does not decrease as the attempt grows, staying at the cap once it is reached.
\<close>

theorem exponential_backoff_bounds:
  assumes "0 \<le> attempt" and "0 < base_delay" and "0 < mx" and "0 \<le> u" and "u < 1"
  shows "backoff_delay attempt base_delay mx
           = min (real_of_int base_delay * 2 ^ nat attempt) (real_of_int mx)
       \<and> backoff_delay attempt base_delay mx \<le> exponential_backoff attempt base_delay mx u
       \<and> exponential_backoff attempt base_delay mx u
           \<le> backoff_delay attempt base_delay mx * (11 / 10)
       \<and> min (5 * 2 ^ nat attempt) 300 \<le> exponential_backoff attempt 5 300 u
       \<and> exponential_backoff attempt 5 300 u \<le> min (5 * 2 ^ nat attempt) 300 * (11 / 10)
       \<and> (\<forall>later. attempt \<le> later \<longrightarrow>
             backoff_delay attempt base_delay mx \<le> backoff_delay later base_delay mx
           \<and> (backoff_delay attempt base_delay mx = real_of_int mx
                \<longrightarrow> backoff_delay later base_delay mx = real_of_int mx))"
proof -
  have raw: "backoff_delay a b m = min (real_of_int b * 2 ^ nat attempt) (real_of_int m)"
    if "a = attempt" for a b m
    using that assms(1) by (simp add: backoff_delay_def py_pow2_def)
  have bounds: "backoff_delay attempt b m \<le> exponential_backoff attempt b m u
      \<and> exponential_backoff attempt b m u \<le> backoff_delay attempt b m * (11 / 10)"
    if "0 < b" and "0 < m" for b m
  proof -
    let ?d = "backoff_delay attempt b m"
    have d: "0 < ?d"
      using that by (rule backoff_delay_pos)
    have j: "0 \<le> uniform 0 (1 / 10) u" "uniform 0 (1 / 10) u \<le> 1 / 10"
      using uniform_bounds [of 0 "1 / 10" u] assms(4,5) by simp_all
    have "0 \<le> ?d * uniform 0 (1 / 10) u"
      using d j(1) by simp
    moreover have "?d * uniform 0 (1 / 10) u \<le> ?d * (1 / 10)"
      using d j(2) by (intro mult_left_mono) simp_all
    ultimately show ?thesis
      by (simp add: exponential_backoff_def Let_def algebra_simps)
  qed
  have mono: "backoff_delay attempt base_delay mx \<le> backoff_delay later base_delay mx
      \<and> (backoff_delay attempt base_delay mx = real_of_int mx
           \<longrightarrow> backoff_delay later base_delay mx = real_of_int mx)"
    if "attempt \<le> later" for later
    using backoff_delay_mono [OF assms(1) that assms(2), of mx]
      backoff_delay_le_cap [of later base_delay mx]
    by auto
  have five: "backoff_delay attempt 5 300 = min (5 * 2 ^ nat attempt) 300"
    using raw [of attempt 5 300] by simp
  have c1: "backoff_delay attempt base_delay mx
      = min (real_of_int base_delay * 2 ^ nat attempt) (real_of_int mx)"
    by (rule raw) simp
  have c2: "backoff_delay attempt base_delay mx \<le> exponential_backoff attempt base_delay mx u"
    and c3: "exponential_backoff attempt base_delay mx u
      \<le> backoff_delay attempt base_delay mx * (11 / 10)"
    using bounds [OF assms(2,3)] by blast+
  have c4: "min (5 * 2 ^ nat attempt) 300 \<le> exponential_backoff attempt 5 300 u"
    and c5: "exponential_backoff attempt 5 300 u \<le> min (5 * 2 ^ nat attempt) 300 * (11 / 10)"
    using bounds [of 5 300] unfolding five by simp_all
  from c1 c2 c3 c4 c5 mono show ?thesis
    by blast
qed

theorem exponential_backoff_bounds_witness:
  "(0::int) \<le> 3 \<and> (0::int) < 5 \<and> (0::int) < 300 \<and> (0::real) \<le> 1 / 2 \<and> (1 / 2 :: real) < 1
   \<and> backoff_delay 3 5 300 = 40
   \<and> 40 \<le> exponential_backoff 3 5 300 (1 / 2)
   \<and> exponential_backoff 3 5 300 (1 / 2) \<le> 44
   \<and> backoff_delay 3 5 300 \<le> backoff_delay 7 5 300"
proof -
  have h: "(0::int) \<le> 3" "(0::int) < 5" "(0::int) < 300" "(0::real) \<le> 1 / 2" "(1 / 2 :: real) < 1"
    by simp_all
  have "(3::int) \<le> 7"
    by simp
  with exponential_backoff_bounds [OF h] show ?thesis
    by auto
qed

text \<open>
  Claim C4, as amended. \<open>typing_delay\<close> performs the division without a guard of its
  own: it is its body with Python's division, and the body raises exactly when the
  division raises, with the same exception. So with \<open>typing_chars_per_second = 0\<close> the
  call ends in the \<open>ZeroDivisionError\<close> of the division, for every message length and
  draw, and never in a number, infinite or not; with any other speed it returns a number.
\<close>

theorem typing_delay_zero_speed:
  "typing_delay t message_length u = typing_delay_with py_truediv t message_length u
   \<and> (typing_delay_with division t message_length u = Inl e)
       = (division message_length (typing_speed t) = Inl e)
   \<and> (typing_speed t = 0 \<longrightarrow> typing_delay t message_length u = Inl ZeroDivisionError)
   \<and> (typing_speed t \<noteq> 0 \<longrightarrow> (\<exists>d. typing_delay t message_length u = Inr d))"
proof -
  have same: "typing_delay t message_length u = typing_delay_with py_truediv t message_length u"
    by (simp add: typing_delay_def typing_delay_with_def)
  have through: "(typing_delay_with division t message_length u = Inl e)
       = (division message_length (typing_speed t) = Inl e)"
    by (cases "division message_length (typing_speed t)")
      (simp_all add: typing_delay_with_def Let_def)
  have zero: "typing_delay t message_length u = Inl ZeroDivisionError" if "typing_speed t = 0"
    using that by (simp add: typing_delay_def py_truediv_def)
  have other: "\<exists>d. typing_delay t message_length u = Inr d" if "typing_speed t \<noteq> 0"
    using that by (simp add: typing_delay_def py_truediv_def Let_def)
  from same through zero other show ?thesis
    by blast
qed

theorem typing_delay_zero_speed_witness:
  "typing_speed stalled_throttler = 0
   \<and> py_truediv 100 (typing_speed stalled_throttler) = Inl ZeroDivisionError
   \<and> typing_delay stalled_throttler 100 (1 / 2) = Inl ZeroDivisionError
   \<and> typing_delay_with py_truediv stalled_throttler 100 (1 / 2) = Inl ZeroDivisionError
   \<and> typing_speed Throttler_default \<noteq> 0
   \<and> typing_delay Throttler_default 100 (1 / 2) = Inr 20"
proof -
  have h: "typing_speed stalled_throttler = 0" "typing_speed Throttler_default \<noteq> 0"
    by (simp_all add: stalled_throttler_def Throttler_default_def Throttler_init_def)
  have d: "py_truediv 100 (typing_speed stalled_throttler) = Inl ZeroDivisionError"
    by (simp add: h py_truediv_def)
  have v: "typing_delay Throttler_default 100 (1 / 2) = Inr 20"
    by (simp add: typing_delay_def py_truediv_def uniform_def Throttler_default_def
        Throttler_init_def)
  note t = typing_delay_zero_speed [of stalled_throttler 100 "1 / 2" py_truediv ZeroDivisionError]
  from t h(1) have z: "typing_delay stalled_throttler 100 (1 / 2) = Inl ZeroDivisionError"
    by blast
  from t d have w: "typing_delay_with py_truediv stalled_throttler 100 (1 / 2)
      = Inl ZeroDivisionError"
    by blast
  from h d z w v show ?thesis
    by blast
qed

text \<open>
  The claim as stated fails at a typing speed of 0 and a message of 100 characters. The
  division is reached and it is the division that raises: there is no guarded branch in
  \<open>typing_delay\<close> that reports the zero divisor. With a division that makes no check the
  same body returns the number the division yields.
\<close>

theorem typing_delay_guard_counterexample:
  "typing_speed stalled_throttler = 0
   \<and> typing_delay stalled_throttler 100 (1 / 2)
       = typing_delay_with py_truediv stalled_throttler 100 (1 / 2)
   \<and> py_truediv 100 0 = Inl ZeroDivisionError
   \<and> typing_delay_with (unchecked_div 1000000) stalled_throttler 100 (1 / 2) = Inr 1000000"
  by (simp add: typing_delay_def typing_delay_with_def py_truediv_def unchecked_div_def
      stalled_throttler_def Throttler_init_def uniform_def)

text \<open>
  Claim C5. For a non-negative message length, a positive typing speed and any draw,
  \<open>typing_delay\<close> returns \<open>base * f\<close> with \<open>0.8 \<le> f \<le> 1.2\<close> and
  \<open>base = message_length / typing_chars_per_second\<close>, and the value returned is not
  negative; for a length of 100 at speed 5 it lies between 16 and 24.
\<close>

theorem typing_delay_bounds:
  assumes "0 \<le> message_length" and "0 < typing_speed t" and "0 \<le> u" and "u < 1"
  shows "(\<exists>f d. 8 / 10 \<le> f \<and> f \<le> 12 / 10
            \<and> typing_delay t message_length u = Inr d
            \<and> d = real_of_int message_length / real_of_int (typing_speed t) * f
            \<and> 0 \<le> d)
       \<and> (\<exists>d. typing_delay (t\<lparr>typing_speed := 5\<rparr>) 100 u = Inr d \<and> 16 \<le> d \<and> d \<le> 24)"
proof -
  let ?v = "uniform (- (2 / 10)) (2 / 10) u"
  have v: "- (2 / 10) \<le> ?v" "?v \<le> 2 / 10"
    using uniform_bounds [of "- (2 / 10)" "2 / 10" u] assms(3,4) by simp_all
  have form: "typing_delay s n u = Inr (real_of_int n / real_of_int (typing_speed s) * (1 + ?v))"
    if "0 < typing_speed s" for s n
    using that by (simp add: typing_delay_def py_truediv_def Let_def algebra_simps)
  let ?base = "real_of_int message_length / real_of_int (typing_speed t)"
  have base: "0 \<le> ?base"
    using assms(1,2) by simp
  have f: "8 / 10 \<le> 1 + ?v" "1 + ?v \<le> 12 / 10"
    using v by simp_all
  have nonneg: "0 \<le> ?base * (1 + ?v)"
    using base f(1) by (intro mult_nonneg_nonneg) simp_all
  have general: "\<exists>f d. 8 / 10 \<le> f \<and> f \<le> 12 / 10
            \<and> typing_delay t message_length u = Inr d
            \<and> d = ?base * f \<and> 0 \<le> d"
    using f nonneg form [OF assms(2), of message_length] by blast
  have "typing_delay (t\<lparr>typing_speed := 5\<rparr>) 100 u = Inr (20 * (1 + ?v))"
    using form [of "t\<lparr>typing_speed := 5\<rparr>" 100] by simp
  moreover have "16 \<le> 20 * (1 + ?v)" "20 * (1 + ?v) \<le> 24"
    using f by simp_all
  ultimately have particular:
    "\<exists>d. typing_delay (t\<lparr>typing_speed := 5\<rparr>) 100 u = Inr d \<and> 16 \<le> d \<and> d \<le> 24"
    by blast
  from general particular show ?thesis
    by blast
qed

theorem typing_delay_bounds_witness:
  "(0::int) \<le> 100 \<and> 0 < typing_speed Throttler_default \<and> (0::real) \<le> 1 / 4 \<and> (1 / 4 :: real) < 1
   \<and> typing_delay Throttler_default 100 (1 / 4) = Inr 18"
proof -
  have h: "(0::int) \<le> 100" "0 < typing_speed Throttler_default" "(0::real) \<le> 1 / 4"
      "(1 / 4 :: real) < 1"
    by (simp_all add: Throttler_default_def Throttler_init_def)
  have "typing_delay Throttler_default 100 (1 / 4) = Inr 18"
    by (simp add: typing_delay_def py_truediv_def uniform_def Throttler_default_def
        Throttler_init_def)
  with h typing_delay_bounds [OF h] show ?thesis
    by simp
qed

text \<open>
  Claim C6. When \<open>0 \<le> min_delay \<le> max_delay\<close> and \<open>page_load_min \<le> page_load_max\<close>,
  \<open>human_delay\<close> lies in \<open>[min_delay, max_delay]\<close> and \<open>page_load_delay\<close> lies in
  \<open>[page_load_min, page_load_max]\<close>, for every draw.
\<close>

theorem delays_within_bounds:
  assumes "0 \<le> min_delay t" and "min_delay t \<le> max_delay t"
    and "page_load_min t \<le> page_load_max t" and "0 \<le> u" and "u < 1"
  shows "real_of_int (min_delay t) \<le> human_delay t u
       \<and> human_delay t u \<le> real_of_int (max_delay t)
       \<and> real_of_int (page_load_min t) \<le> page_load_delay t u
       \<and> page_load_delay t u \<le> real_of_int (page_load_max t)"
proof -
  have "real_of_int (min_delay t) \<le> real_of_int (max_delay t)"
    using assms(2) by simp
  from uniform_bounds [OF this assms(4,5)]
  have hd: "real_of_int (min_delay t) \<le> human_delay t u"
      "human_delay t u \<le> real_of_int (max_delay t)"
    by (simp_all add: human_delay_def)
  have "real_of_int (page_load_min t) \<le> real_of_int (page_load_max t)"
    using assms(3) by simp
  from uniform_bounds [OF this assms(4,5)]
  have pl: "real_of_int (page_load_min t) \<le> page_load_delay t u"
      "page_load_delay t u \<le> real_of_int (page_load_max t)"
    by (simp_all add: page_load_delay_def)
  from hd pl show ?thesis
    by blast
qed

theorem delays_within_bounds_witness:
  "0 \<le> min_delay Throttler_default \<and> min_delay Throttler_default \<le> max_delay Throttler_default
   \<and> page_load_min Throttler_default \<le> page_load_max Throttler_default
   \<and> (0::real) \<le> 1 / 3 \<and> (1 / 3 :: real) < 1
   \<and> human_delay Throttler_default (1 / 3) = 60
   \<and> page_load_delay Throttler_default (1 / 3) = 3
   \<and> (30::real) \<le> human_delay Throttler_default (1 / 3)
   \<and> human_delay Throttler_default (1 / 3) \<le> 120
   \<and> (2::real) \<le> page_load_delay Throttler_default (1 / 3)
   \<and> page_load_delay Throttler_default (1 / 3) \<le> 5"
proof -
  have h: "0 \<le> min_delay Throttler_default" "min_delay Throttler_default \<le> max_delay Throttler_default"
      "page_load_min Throttler_default \<le> page_load_max Throttler_default"
      "(0::real) \<le> 1 / 3" "(1 / 3 :: real) < 1"
    by (simp_all add: Throttler_default_def Throttler_init_def)
  have v: "human_delay Throttler_default (1 / 3) = 60" "page_load_delay Throttler_default (1 / 3) = 3"
    by (simp_all add: human_delay_def page_load_delay_def uniform_def Throttler_default_def
        Throttler_init_def)
  from h v delays_within_bounds [OF h] show ?thesis
    by simp
qed

section \<open>Properties of the send loop\<close>


lemma send_message_sent:
  "messages_sent (fst (send_message ms e r))
     = (if delivered ms e r then messages_sent ms + 1 else messages_sent ms)"
  by (simp add: send_message_def delivered_def Let_def split: option.splits)

lemma send_message_templates:
  "template_manager (fst (send_message ms e r)) = template_manager ms"
  by (simp add: send_message_def Let_def split: option.splits)

lemma delivered_iff: "delivered ms e r = succeeds e"
  by (auto simp add: send_message_def delivered_def succeeds_def validate_recipient_def Let_def split: option.splits)

lemma process_recipient_calls:
  "calls (process_recipient thr e n idx r s)
     = calls s @ SendMessage r
         # (if delivered (messenger s) e r \<and> idx < n
            then [WaitHumanDelay (human_delay thr (delay_draw e))] else [])"
  by (simp add: process_recipient_def delivered_def Let_def split: prod.splits)

lemma process_recipient_failures:
  "consecutive_failures (process_recipient thr e n idx r s)
     = (if delivered (messenger s) e r then 0 else consecutive_failures s + 1)"
  by (simp add: process_recipient_def delivered_def Let_def split: prod.splits)

lemma process_recipient_messenger:
  "messenger (process_recipient thr e n idx r s) = fst (send_message (messenger s) e r)"
  by (simp add: process_recipient_def Let_def split: prod.splits)

lemma process_recipient_logs:
  "\<exists>l. logs (process_recipient thr e n idx r s) = logs s @ [l]
       \<and> recipient_name l = full_name r \<and> log_profile_url l = profile_url r
       \<and> status l = (if delivered (messenger s) e r then Sent else Failed)"
  by (simp add: process_recipient_def delivered_def Let_def log_message_sent_def
      log_message_failed_def split: prod.splits)


lemma attempted_append: "attempted (xs @ ys) = attempted xs @ attempted ys"
  by (induction xs rule: attempted.induct) simp_all

lemma wait_count_append: "wait_count (xs @ ys) = wait_count xs + wait_count ys"
  by (induction xs rule: wait_count.induct) simp_all

lemma process_recipient_attempted:
  "attempted (calls (process_recipient thr e n idx r s)) = attempted (calls s) @ [r]"
  by (simp add: process_recipient_calls attempted_append)

lemma process_recipient_wait_count:
  "wait_count (calls (process_recipient thr e n idx r s))
     = wait_count (calls s) + (if delivered (messenger s) e r \<and> idx < n then 1 else 0)"
  by (simp add: process_recipient_calls wait_count_append)

lemma process_recipient_sent:
  "messages_sent (messenger (process_recipient thr e n idx r s))
     = (if delivered (messenger s) e r then messages_sent (messenger s) + 1
        else messages_sent (messenger s))"
  by (simp add: process_recipient_messenger send_message_sent)

lemma send_loop_stop:
  assumes "session_limit cfg \<le> get_message_count (messenger s)"
  shows "send_loop cfg thr env n idx rs s = s"
  using assms by (cases rs) simp_all

lemma send_loop_breaker_stop:
  assumes "check_circuit_breaker cfg s"
  shows "send_loop cfg thr env n idx rs s = s"
  using assms by (cases rs) simp_all

lemma send_loop_failures_nonneg:
  assumes "0 \<le> consecutive_failures s"
  shows "0 \<le> consecutive_failures (send_loop cfg thr env n idx rs s)"
  using assms
proof (induction rs arbitrary: s idx)
  case Nil
  then show ?case by simp
next
  case (Cons r rs)
  have "0 \<le> consecutive_failures (process_recipient thr (env idx) n idx r s)"
    using Cons.prems by (simp add: process_recipient_failures)
  from Cons.IH [OF this] Cons.prems show ?case
    by simp
qed

lemma send_loop_sent_bound:
  assumes "messages_sent (messenger s) \<le> max 0 (session_limit cfg)"
  shows "messages_sent (messenger (send_loop cfg thr env n idx rs s)) \<le> max 0 (session_limit cfg)"
  using assms
proof (induction rs arbitrary: s idx)
  case Nil
  then show ?case by simp
next
  case (Cons r rs)
  show ?case
  proof (cases "session_limit cfg \<le> get_message_count (messenger s) \<or> check_circuit_breaker cfg s")
    case True
    then have "send_loop cfg thr env n idx (r # rs) s = s"
      by auto
    with Cons.prems show ?thesis
      by simp
  next
    case False
    then have "messages_sent (messenger s) < session_limit cfg"
      by (simp add: get_message_count_def)
    then have "messages_sent (messenger (process_recipient thr (env idx) n idx r s))
        \<le> max 0 (session_limit cfg)"
      by (auto simp add: process_recipient_sent)
    from Cons.IH [OF this] False show ?thesis
      by simp
  qed
qed

lemma send_loop_prefix:
  "\<exists>k\<le>length rs.
     attempted (calls (send_loop cfg thr env n idx rs s)) = attempted (calls s) @ take k rs
   \<and> map recipient_name (logs (send_loop cfg thr env n idx rs s))
       = map recipient_name (logs s) @ map full_name (take k rs)"
proof (induction rs arbitrary: s idx)
  case Nil
  then show ?case by simp
next
  case (Cons r rs)
  show ?case
  proof (cases "session_limit cfg \<le> get_message_count (messenger s) \<or> check_circuit_breaker cfg s")
    case True
    then have "send_loop cfg thr env n idx (r # rs) s = s"
      by auto
    then show ?thesis
      by (intro exI [of _ 0]) simp
  next
    case False
    let ?s1 = "process_recipient thr (env idx) n idx r s"
    from Cons.IH [of "Suc idx" ?s1] obtain k where k: "k \<le> length rs"
      "attempted (calls (send_loop cfg thr env n (Suc idx) rs ?s1))
         = attempted (calls ?s1) @ take k rs"
      "map recipient_name (logs (send_loop cfg thr env n (Suc idx) rs ?s1))
         = map recipient_name (logs ?s1) @ map full_name (take k rs)"
      by blast
    obtain l where l: "logs ?s1 = logs s @ [l]" "recipient_name l = full_name r"
      using process_recipient_logs [of thr "env idx" n idx r s] by blast
    have step: "send_loop cfg thr env n idx (r # rs) s = send_loop cfg thr env n (Suc idx) rs ?s1"
      using False by simp
    show ?thesis
      unfolding step using k l
      by (intro exI [of _ "Suc k"]) (simp add: process_recipient_attempted)
  qed
qed

lemma send_loop_all_succeed:
  assumes ok: "\<And>i. succeeds (env i)"
    and br: "enable_circuit_breaker cfg \<Longrightarrow> 0 < max_consecutive_failures cfg"
    and cf: "consecutive_failures s = 0"
  shows "attempted (calls (send_loop cfg thr env n idx rs s))
           = attempted (calls s) @ take (nat (session_limit cfg - messages_sent (messenger s))) rs
       \<and> length (logs (send_loop cfg thr env n idx rs s))
           = length (logs s) + min (nat (session_limit cfg - messages_sent (messenger s))) (length rs)"
  using cf
proof (induction rs arbitrary: s idx)
  case Nil
  then show ?case by simp
next
  case (Cons r rs)
  have nb: "\<not> check_circuit_breaker cfg s"
    using br Cons.prems by (auto simp add: check_circuit_breaker_def)
  show ?case
  proof (cases "session_limit cfg \<le> get_message_count (messenger s)")
    case True
    then have "send_loop cfg thr env n idx (r # rs) s = s"
      by simp
    with True show ?thesis
      by (simp add: get_message_count_def)
  next
    case False
    let ?s1 = "process_recipient thr (env idx) n idx r s"
    have d: "delivered (messenger s) (env idx) r"
      using ok by (simp add: delivered_iff)
    have cf1: "consecutive_failures ?s1 = 0"
      using d by (simp add: process_recipient_failures)
    have sent1: "messages_sent (messenger ?s1) = messages_sent (messenger s) + 1"
      using d by (simp add: process_recipient_sent)
    obtain l where l: "logs ?s1 = logs s @ [l]"
      using process_recipient_logs [of thr "env idx" n idx r s] by blast
    have step: "send_loop cfg thr env n idx (r # rs) s = send_loop cfg thr env n (Suc idx) rs ?s1"
      using False nb by simp
    from False have lt: "messages_sent (messenger s) < session_limit cfg"
      by (simp add: get_message_count_def)
    then have nat_eq: "nat (session_limit cfg - messages_sent (messenger s))
        = Suc (nat (session_limit cfg - (messages_sent (messenger s) + 1)))"
      by simp
    show ?thesis
      unfolding step using Cons.IH [OF cf1, of "Suc idx"]
      by (simp add: sent1 l nat_eq process_recipient_attempted)
  qed
qed



lemma process_recipient_sent_count:
  "sent_count (logs (process_recipient thr e n idx r s))
     = sent_count (logs s) + (if delivered (messenger s) e r then 1 else 0)"
proof -
  obtain l where "logs (process_recipient thr e n idx r s) = logs s @ [l]"
    "status l = (if delivered (messenger s) e r then Sent else Failed)"
    using process_recipient_logs [of thr e n idx r s] by blast
  then show ?thesis
    by (simp add: sent_count_def)
qed

lemma send_loop_counts:
  assumes "int (wait_count (calls s)) \<le> messages_sent (messenger s)"
    and "int (sent_count (logs s)) = messages_sent (messenger s)"
  shows "int (wait_count (calls (send_loop cfg thr env n idx rs s)))
           \<le> messages_sent (messenger (send_loop cfg thr env n idx rs s))
       \<and> int (sent_count (logs (send_loop cfg thr env n idx rs s)))
           = messages_sent (messenger (send_loop cfg thr env n idx rs s))"
  using assms
proof (induction rs arbitrary: s idx)
  case Nil
  then show ?case by simp
next
  case (Cons r rs)
  let ?s1 = "process_recipient thr (env idx) n idx r s"
  have "int (wait_count (calls ?s1)) \<le> messages_sent (messenger ?s1)"
    using Cons.prems(1)
    by (simp add: process_recipient_wait_count process_recipient_sent)
  moreover have "int (sent_count (logs ?s1)) = messages_sent (messenger ?s1)"
    using Cons.prems(2)
    by (simp add: process_recipient_sent_count process_recipient_sent)
  ultimately show ?case
    using Cons.IH [of ?s1 "Suc idx"] Cons.prems by simp
qed

lemma send_loop_last_call:
  assumes "rs \<noteq> []" and "idx + length rs = Suc n"
    and "attempted (calls (send_loop cfg thr env n idx rs s)) = attempted (calls s) @ rs"
  shows "last (calls (send_loop cfg thr env n idx rs s)) = SendMessage (last rs)"
  using assms
proof (induction rs arbitrary: s idx)
  case Nil
  then show ?case by simp
next
  case (Cons r rs)
  let ?s1 = "process_recipient thr (env idx) n idx r s"
  have go: "send_loop cfg thr env n idx (r # rs) s = send_loop cfg thr env n (Suc idx) rs ?s1"
  proof (rule ccontr)
    assume "\<not> ?thesis"
    then have "send_loop cfg thr env n idx (r # rs) s = s"
      by (simp split: if_splits)
    with Cons.prems(3) show False
      by simp
  qed
  show ?case
  proof (cases rs)
    case Nil
    then have "idx = n"
      using Cons.prems(2) by simp
    then have "calls ?s1 = calls s @ [SendMessage r]"
      by (simp add: process_recipient_calls)
    then show ?thesis
      unfolding go using Nil by simp
  next
    case (Cons r' rest)
    have "attempted (calls (send_loop cfg thr env n (Suc idx) rs ?s1))
        = attempted (calls ?s1) @ rs"
      using Cons.prems(3) unfolding go by (simp add: process_recipient_attempted)
    moreover have "Suc idx + length rs = Suc n"
      using Cons.prems(2) by simp
    ultimately have "last (calls (send_loop cfg thr env n (Suc idx) rs ?s1)) = SendMessage (last rs)"
      using Cons.IH [of "Suc idx" ?s1] Cons by simp
    then show ?thesis
      unfolding go using Cons by simp
  qed
qed


lemmas run_defs = send_messages_def sample_config_def initialize_components_def
  MessageTemplate_init_def initial_state_def MessageSender_init_def get_message_count_def
  check_circuit_breaker_def process_recipient_def send_message_def env_ok_def env_fail_def
  validate_recipient_def apply_template_def replace_placeholders_def replacements_def
  pattern_of_def john_def jane_def py_or_def Throttler_init_def human_delay_def uniform_def
  log_message_sent_def log_message_failed_def full_name_def Let_def sample_throttler_def
  five_recipients_def env_second_ok_def run_all_ok_def run_second_ok_def delivered_def
  succeeds_def sent_count_def

lemma send_messages_run:
  assumes "send_messages cfg thr env recipients = Inr s'"
  shows "s' = send_loop cfg thr env (length recipients) 1 recipients
                (initial_state (message_templates cfg))"
  using assms by (simp add: send_messages_def MessageTemplate_init_def split: if_splits)

lemma send_messages_returns:
  assumes "message_templates cfg \<noteq> []"
  shows "\<exists>s'. send_messages cfg thr env recipients = Inr s'"
  using assms by (simp add: send_messages_def MessageTemplate_init_def)

lemma send_messages_raises:
  assumes "message_templates cfg = []"
  shows "send_messages cfg thr env recipients
           = Inl (ValueError ''At least one template is required'')"
  using assms by (simp add: send_messages_def MessageTemplate_init_def)

lemma initial_state_simps:
  "consecutive_failures (initial_state t) = 0"
  "messages_sent (messenger (initial_state t)) = 0"
  "logs (initial_state t) = []"
  "calls (initial_state t) = []"
  by (simp_all add: initial_state_def MessageSender_init_def)

text \<open>
  Claim C2. The failure counter starts at 0 and is never negative after a run; a delivery
  that succeeds sets it to 0 whatever it was, one that fails adds 1; the breaker check is
  false when the breaker is disabled and otherwise true exactly when the counter has reached
  \<open>max_consecutive_failures\<close>.
\<close>

theorem circuit_breaker_counter:
  "consecutive_failures (initial_state templates) = 0
   \<and> (\<forall>s'. send_messages cfg thr env recipients = Inr s' \<longrightarrow> 0 \<le> consecutive_failures s')
   \<and> (0 \<le> consecutive_failures s
        \<longrightarrow> 0 \<le> consecutive_failures (process_recipient thr e n idx r s))
   \<and> (delivered (messenger s) e r
        \<longrightarrow> consecutive_failures (process_recipient thr e n idx r s) = 0)
   \<and> (\<not> delivered (messenger s) e r
        \<longrightarrow> consecutive_failures (process_recipient thr e n idx r s) = consecutive_failures s + 1)
   \<and> (\<not> enable_circuit_breaker cfg \<longrightarrow> \<not> check_circuit_breaker cfg s)
   \<and> (enable_circuit_breaker cfg
        \<longrightarrow> check_circuit_breaker cfg s
              = (max_consecutive_failures cfg \<le> consecutive_failures s))"
proof -
  have run: "0 \<le> consecutive_failures s'" if "send_messages cfg thr env recipients = Inr s'" for s'
    unfolding send_messages_run [OF that]
    by (rule send_loop_failures_nonneg) (simp add: initial_state_simps)
  have step: "0 \<le> consecutive_failures (process_recipient thr e n idx r s)"
    if "0 \<le> consecutive_failures s"
    using that by (simp add: process_recipient_failures)
  show ?thesis
    using run step
    by (simp add: initial_state_simps process_recipient_failures check_circuit_breaker_def)
qed

theorem circuit_breaker_counter_witness:
  "send_messages sample_config sample_throttler env_second_ok five_recipients = Inr run_second_ok
   \<and> consecutive_failures run_second_ok = 3
   \<and> enable_circuit_breaker sample_config
   \<and> max_consecutive_failures sample_config = 3
   \<and> check_circuit_breaker sample_config run_second_ok
   \<and> \<not> delivered (messenger run_second_ok) env_fail john
   \<and> consecutive_failures (process_recipient sample_throttler env_fail 5 5 john run_second_ok) = 4
   \<and> delivered (messenger run_second_ok) env_ok john
   \<and> consecutive_failures (process_recipient sample_throttler env_ok 5 5 john run_second_ok) = 0
   \<and> \<not> check_circuit_breaker sample_config
         (process_recipient sample_throttler env_ok 5 5 john run_second_ok)
   \<and> \<not> enable_circuit_breaker (sample_config\<lparr>enable_circuit_breaker := False\<rparr>)
   \<and> \<not> check_circuit_breaker (sample_config\<lparr>enable_circuit_breaker := False\<rparr>) run_second_ok"
proof -
  have run: "send_messages sample_config sample_throttler env_second_ok five_recipients
      = Inr run_second_ok"
    by (simp add: run_defs)
  have cf: "consecutive_failures run_second_ok = 3"
    by (simp add: run_defs)
  have ms: "messenger run_second_ok = \<lparr>template_manager = [''Hi {first_name}!''], messages_sent = 1\<rparr>"
    by (simp add: run_defs)
  have d: "\<not> delivered (messenger run_second_ok) env_fail john"
    "delivered (messenger run_second_ok) env_ok john"
    unfolding ms by (simp_all add: run_defs)
  have en: "enable_circuit_breaker sample_config" "max_consecutive_failures sample_config = 3"
    "\<not> enable_circuit_breaker (sample_config\<lparr>enable_circuit_breaker := False\<rparr>)"
    by (simp_all add: sample_config_def)
  note a = circuit_breaker_counter [of "message_templates sample_config" sample_config
      sample_throttler env_second_ok five_recipients run_second_ok env_fail 5 5 john]
  note b = circuit_breaker_counter [of "message_templates sample_config" sample_config
      sample_throttler env_second_ok five_recipients run_second_ok env_ok 5 5 john]
  note c = circuit_breaker_counter [of "message_templates sample_config" sample_config
      sample_throttler env_second_ok five_recipients
      "process_recipient sample_throttler env_ok 5 5 john run_second_ok" env_ok 5 5 john]
  note e = circuit_breaker_counter [of "message_templates sample_config"
      "sample_config\<lparr>enable_circuit_breaker := False\<rparr>"
      sample_throttler env_second_ok five_recipients run_second_ok env_ok 5 5 john]
  from a b c e run cf d en show ?thesis
    by simp
qed

text \<open>
  Claim C3. Once the number of messages sent has reached \<open>session_limit\<close> the loop ends
  with the state it has: no further call to \<open>send_message\<close> and no further log entry,
  whatever recipients remain. So a run sends at most \<open>session_limit\<close> messages, and the
  recipients attempted, like the recipients logged, are an initial part of the list, one
  log entry for each attempt. With five recipients, a limit of 3, every delivery
  succeeding and the breaker not open at the start, exactly the first three recipients are
  attempted and logged.
\<close>

theorem session_limit_stops_sending:
  assumes "send_messages cfg thr env recipients = Inr s'"
  shows "(session_limit cfg \<le> get_message_count (messenger s)
            \<longrightarrow> send_loop cfg thr env n idx rs s = s)
       \<and> messages_sent (messenger s') \<le> max 0 (session_limit cfg)
       \<and> int (sent_count (logs s')) = messages_sent (messenger s')
       \<and> (\<exists>k\<le>length recipients.
             attempted (calls s') = take k recipients
           \<and> map recipient_name (logs s') = map full_name (take k recipients))
       \<and> ((\<forall>i. succeeds (env i))
            \<and> (enable_circuit_breaker cfg \<longrightarrow> 0 < max_consecutive_failures cfg)
            \<and> length recipients = 5 \<and> session_limit cfg = 3
          \<longrightarrow> attempted (calls s') = take 3 recipients
              \<and> map recipient_name (logs s') = map full_name (take 3 recipients)
              \<and> length (logs s') = 3)"
proof -
  let ?s0 = "initial_state (message_templates cfg)"
  note run = send_messages_run [OF assms]
  have stop: "send_loop cfg thr env n idx rs s = s"
    if "session_limit cfg \<le> get_message_count (messenger s)"
    using that by (rule send_loop_stop)
  have bound: "messages_sent (messenger s') \<le> max 0 (session_limit cfg)"
    unfolding run by (rule send_loop_sent_bound) (simp add: initial_state_simps)
  have count: "int (sent_count (logs s')) = messages_sent (messenger s')"
    unfolding run
    using send_loop_counts [of ?s0 cfg thr env "length recipients" 1 recipients]
    by (simp add: initial_state_simps sent_count_def)
  obtain k where k: "k \<le> length recipients" "attempted (calls s') = take k recipients"
    "map recipient_name (logs s') = map full_name (take k recipients)"
    using send_loop_prefix [of recipients cfg thr env "length recipients" 1 ?s0]
    unfolding run by (auto simp add: initial_state_simps)
  have scenario: "attempted (calls s') = take 3 recipients
      \<and> map recipient_name (logs s') = map full_name (take 3 recipients)
      \<and> length (logs s') = 3"
    if ok: "\<forall>i. succeeds (env i)"
      and br: "enable_circuit_breaker cfg \<longrightarrow> 0 < max_consecutive_failures cfg"
      and five: "length recipients = 5" and lim: "session_limit cfg = 3"
  proof -
    have all: "attempted (calls s') = take 3 recipients" "length (logs s') = 3"
      using send_loop_all_succeed [of env cfg ?s0 thr "length recipients" 1 recipients]
        ok br five lim
      unfolding run by (simp_all add: initial_state_simps)
    have "length (attempted (calls s')) = 3"
      using all(1) five by simp
    then have "k = 3"
      using k(1,2) five by simp
    with all k(3) show ?thesis
      by simp
  qed
  from stop bound count k scenario show ?thesis
    by blast
qed

theorem session_limit_stops_sending_witness:
  "send_messages sample_config sample_throttler (\<lambda>i. env_ok) five_recipients = Inr run_all_ok
   \<and> session_limit sample_config = 3
   \<and> length five_recipients = 5
   \<and> succeeds env_ok
   \<and> enable_circuit_breaker sample_config \<and> 0 < max_consecutive_failures sample_config
   \<and> get_message_count (messenger run_all_ok) = 3
   \<and> send_loop sample_config sample_throttler (\<lambda>i. env_ok) 5 4 [jane, john] run_all_ok = run_all_ok
   \<and> attempted (calls run_all_ok) = [john, jane, john]
   \<and> map recipient_name (logs run_all_ok) = [''John Doe'', ''Jane Smith'', ''John Doe'']
   \<and> map status (logs run_all_ok) = [Sent, Sent, Sent]
   \<and> sent_count (logs run_all_ok) = 3"
proof -
  have run: "send_messages sample_config sample_throttler (\<lambda>i. env_ok) five_recipients
      = Inr run_all_ok"
    by (simp add: run_defs)
  have cfg: "session_limit sample_config = 3" "enable_circuit_breaker sample_config"
    "0 < max_consecutive_failures sample_config" "length five_recipients = 5"
    "succeeds env_ok" "\<forall>i::nat. succeeds env_ok"
    by (simp_all add: sample_config_def five_recipients_def succeeds_def env_ok_def)
  have got: "get_message_count (messenger run_all_ok) = 3"
    by (simp add: run_defs)
  have logged: "map status (logs run_all_ok) = [Sent, Sent, Sent]"
    "sent_count (logs run_all_ok) = 3"
    by (simp_all add: run_defs)
  have three: "take 3 five_recipients = [john, jane, john]"
    by (simp add: five_recipients_def)
  have names: "map full_name [john, jane, john] = [''John Doe'', ''Jane Smith'', ''John Doe'']"
    by (simp add: full_name_def john_def jane_def)
  note t = session_limit_stops_sending [OF run, of run_all_ok 5 4 "[jane, john]"]
  from t run cfg got logged three names show ?thesis
    by simp
qed

lemma concat_upt_Suc:
  "concat (map f [0..<Suc k]) = f 0 @ concat (map (\<lambda>i. f (Suc i)) [0..<k])"
proof -
  have "[0..<Suc k] = 0 # map Suc [0..<k]"
    by (simp add: upt_conv_Cons map_Suc_upt del: upt_Suc)
  then show ?thesis
    by (simp add: comp_def del: upt_Suc)
qed

lemma process_recipient_calls_for:
  "calls (process_recipient thr (env idx) n idx r s) = calls s @ calls_for thr env n idx r"
  by (simp add: process_recipient_calls calls_for_def delivered_iff)

lemma send_loop_calls:
  "\<exists>k\<le>length rs.
     calls (send_loop cfg thr env n idx rs s)
       = calls s @ concat (map (\<lambda>i. calls_for thr env n (idx + i) (rs ! i)) [0..<k])
   \<and> (k = length rs
        \<or> session_limit cfg \<le> get_message_count (messenger (send_loop cfg thr env n idx rs s))
        \<or> check_circuit_breaker cfg (send_loop cfg thr env n idx rs s))"
proof (induction rs arbitrary: s idx)
  case Nil
  then show ?case by simp
next
  case (Cons r rs)
  show ?case
  proof (cases "session_limit cfg \<le> get_message_count (messenger s) \<or> check_circuit_breaker cfg s")
    case True
    then have "send_loop cfg thr env n idx (r # rs) s = s"
      by auto
    with True show ?thesis
      by (intro exI [of _ 0]) auto
  next
    case False
    let ?s1 = "process_recipient thr (env idx) n idx r s"
    let ?end = "send_loop cfg thr env n (Suc idx) rs ?s1"
    from Cons.IH [of "Suc idx" ?s1] obtain k where k: "k \<le> length rs"
      "calls ?end = calls ?s1 @ concat (map (\<lambda>i. calls_for thr env n (Suc idx + i) (rs ! i)) [0..<k])"
      "k = length rs \<or> session_limit cfg \<le> get_message_count (messenger ?end)
         \<or> check_circuit_breaker cfg ?end"
      by blast
    have step: "send_loop cfg thr env n idx (r # rs) s = ?end"
      using False by simp
    have "concat (map (\<lambda>i. calls_for thr env n (idx + i) ((r # rs) ! i)) [0..<Suc k])
        = calls_for thr env n idx r
            @ concat (map (\<lambda>i. calls_for thr env n (Suc idx + i) (rs ! i)) [0..<k])"
      by (simp add: concat_upt_Suc del: upt_Suc)
    with k show ?thesis
      unfolding step
      by (intro exI [of _ "Suc k"]) (auto simp add: process_recipient_calls_for simp del: upt_Suc)
  qed
qed

lemma send_loop_expected_calls:
  "\<exists>k\<le>length rs.
     calls (send_loop cfg thr env (length rs) 1 rs (initial_state t)) = expected_calls thr env rs k
   \<and> (k = length rs
        \<or> session_limit cfg
             \<le> get_message_count (messenger (send_loop cfg thr env (length rs) 1 rs (initial_state t)))
        \<or> check_circuit_breaker cfg (send_loop cfg thr env (length rs) 1 rs (initial_state t)))"
  using send_loop_calls [of rs cfg thr env "length rs" 1 "initial_state t"]
  by (simp add: expected_calls_def initial_state_simps)

text \<open>
  Claim C7. A run of the loop attempts the first \<open>k\<close> recipients for some \<open>k\<close>, and the
  calls it makes are, for each of them in turn, the call of \<open>send_message\<close> followed by
  a pause for a human delay exactly when that delivery succeeded and the recipient is not
  the last of the list; after a failure and after the last recipient there is no pause.
  The run stops short of the whole list only with the session limit reached or the breaker
  open, and a stop at a recipient that is not attempted leaves the state as it is, so
  nothing pauses. For one recipient the same is said by the calls of the loop body. Over
  a run there are never more pauses than messages sent, and when every recipient has been
  attempted the last call is the \<open>send_message\<close> for the last recipient, not a pause.
\<close>

theorem human_delay_only_after_success:
  assumes "send_messages cfg thr env recipients = Inr s'"
  shows "(\<exists>k\<le>length recipients.
            calls s' = expected_calls thr env recipients k
          \<and> (k = length recipients
               \<or> session_limit cfg \<le> get_message_count (messenger s')
               \<or> check_circuit_breaker cfg s'))
       \<and> calls (process_recipient thr e n idx r s)
           = calls s @ SendMessage r
               # (if delivered (messenger s) e r \<and> idx < n
                  then [WaitHumanDelay (human_delay thr (delay_draw e))] else [])
       \<and> (session_limit cfg \<le> get_message_count (messenger s) \<or> check_circuit_breaker cfg s
            \<longrightarrow> send_loop cfg thr env n idx (r # rs) s = s)
       \<and> int (wait_count (calls s')) \<le> messages_sent (messenger s')
       \<and> (recipients \<noteq> [] \<and> attempted (calls s') = recipients
            \<longrightarrow> last (calls s') = SendMessage (last recipients))"
proof -
  let ?s0 = "initial_state (message_templates cfg)"
  note run = send_messages_run [OF assms]
  have whole: "\<exists>k\<le>length recipients.
            calls s' = expected_calls thr env recipients k
          \<and> (k = length recipients
               \<or> session_limit cfg \<le> get_message_count (messenger s')
               \<or> check_circuit_breaker cfg s')"
    unfolding run by (rule send_loop_expected_calls)
  have skip: "send_loop cfg thr env n idx (r # rs) s = s"
    if "session_limit cfg \<le> get_message_count (messenger s) \<or> check_circuit_breaker cfg s"
    using that by auto
  have waits: "int (wait_count (calls s')) \<le> messages_sent (messenger s')"
    unfolding run
    using send_loop_counts [of ?s0 cfg thr env "length recipients" 1 recipients]
    by (simp add: initial_state_simps sent_count_def)
  have final: "last (calls s') = SendMessage (last recipients)"
    if "recipients \<noteq> [] \<and> attempted (calls s') = recipients"
    unfolding run
    using that send_loop_last_call [of recipients 1 "length recipients" cfg thr env ?s0]
    unfolding run by (simp add: initial_state_simps)
  have body: "calls (process_recipient thr e n idx r s)
           = calls s @ SendMessage r
               # (if delivered (messenger s) e r \<and> idx < n
                  then [WaitHumanDelay (human_delay thr (delay_draw e))] else [])"
    by (rule process_recipient_calls)
  from whole body skip waits final show ?thesis
    by blast
qed

theorem human_delay_only_after_success_witness:
  "send_messages relaxed_config sample_throttler (\<lambda>i. env_ok) three_recipients = Inr run_three_ok
   \<and> calls run_three_ok
       = [SendMessage john, WaitHumanDelay 75, SendMessage jane, WaitHumanDelay 75,
          SendMessage john]
   \<and> expected_calls sample_throttler (\<lambda>i. env_ok) three_recipients 3 = calls run_three_ok
   \<and> send_messages sample_config sample_throttler env_second_ok five_recipients = Inr run_second_ok
   \<and> five_recipients \<noteq> [] \<and> attempted (calls run_second_ok) = five_recipients
   \<and> calls run_second_ok
       = [SendMessage john, SendMessage jane, WaitHumanDelay 75, SendMessage john,
          SendMessage jane, SendMessage john]
   \<and> expected_calls sample_throttler env_second_ok five_recipients 5 = calls run_second_ok
   \<and> last (calls run_second_ok) = SendMessage (last five_recipients)
   \<and> wait_count (calls run_second_ok) = 1 \<and> messages_sent (messenger run_second_ok) = 1
   \<and> check_circuit_breaker sample_config run_second_ok
   \<and> send_loop sample_config sample_throttler env_second_ok 5 5 [john] run_second_ok
       = run_second_ok"
proof -
  have run3: "send_messages relaxed_config sample_throttler (\<lambda>i. env_ok) three_recipients
      = Inr run_three_ok"
    by (simp add: run_defs relaxed_config_def three_recipients_def run_three_ok_def)
  have tr3: "calls run_three_ok
       = [SendMessage john, WaitHumanDelay 75, SendMessage jane, WaitHumanDelay 75,
          SendMessage john]"
    by (simp add: run_defs relaxed_config_def three_recipients_def run_three_ok_def)
  have upt3: "[0..<3] = [0, 1, 2]" and upt5: "[0..<5] = [0, 1, 2, 3, 4]"
    by (simp_all add: upt_rec)
  have ex3: "expected_calls sample_throttler (\<lambda>i. env_ok) three_recipients 3
       = [SendMessage john, WaitHumanDelay 75, SendMessage jane, WaitHumanDelay 75,
          SendMessage john]"
    unfolding expected_calls_def upt3
    by (simp add: calls_for_def three_recipients_def run_defs)
  have run: "send_messages sample_config sample_throttler env_second_ok five_recipients
      = Inr run_second_ok"
    by (simp add: run_defs)
  have tr: "calls run_second_ok
       = [SendMessage john, SendMessage jane, WaitHumanDelay 75, SendMessage john,
          SendMessage jane, SendMessage john]"
    by (simp add: run_defs)
  have ex5: "expected_calls sample_throttler env_second_ok five_recipients 5
       = [SendMessage john, SendMessage jane, WaitHumanDelay 75, SendMessage john,
          SendMessage jane, SendMessage john]"
    unfolding expected_calls_def upt5
    by (simp add: calls_for_def run_defs)
  have ms: "messages_sent (messenger run_second_ok) = 1"
    by (simp add: run_defs)
  have br: "check_circuit_breaker sample_config run_second_ok"
    by (simp add: run_defs)
  have five: "five_recipients = [john, jane, john, jane, john]"
    by (simp add: five_recipients_def)
  note t3 = human_delay_only_after_success [OF run3, where e = env_ok and n = 3 and idx = 3
      and r = john and s = run_three_ok and rs = "[]"]
  note t = human_delay_only_after_success [OF run, where e = env_ok and n = 5 and idx = 5
      and r = john and s = run_second_ok and rs = "[]"]
  from t have stop: "send_loop sample_config sample_throttler env_second_ok 5 5 [john] run_second_ok
       = run_second_ok"
    using br by blast
  from t have lst: "last (calls run_second_ok) = SendMessage (last five_recipients)"
    using tr by (simp add: five)
  from t3 have "\<exists>k\<le>length three_recipients.
      calls run_three_ok = expected_calls sample_throttler (\<lambda>i. env_ok) three_recipients k"
    by blast
  have w: "wait_count (calls run_second_ok) = 1"
    unfolding tr by simp
  have a: "attempted (calls run_second_ok) = five_recipients" "five_recipients \<noteq> []"
    unfolding tr five by simp_all
  from run3 tr3 ex3 run a tr ex5 lst w ms br stop show ?thesis
    by simp
qed

section \<open>Properties of the recipient source\<close>
















section \<open>Properties of the template engine\<close>

lemmas template_defs = replace_placeholders_def replacements_def pattern_of_def py_or_def
  injected_def injected_back_def injected_location_def anonymous_def john_def

lemma pattern_not_prefix:
  assumes "c \<noteq> CHR ''{''"
  shows "\<not> prefix (pattern_of name) (c # cs)"
  using assms by (simp add: pattern_of_def)

lemma pattern_not_Nil: "pattern_of name \<noteq> []"
  by (simp add: pattern_of_def)

lemma str_replace_skip:
  assumes "CHR ''{'' \<notin> set s"
  shows "str_replace (pattern_of name) v (s @ rest) = s @ str_replace (pattern_of name) v rest"
  using assms
proof (induction s)
  case Nil
  then show ?case by simp
next
  case (Cons c s)
  from Cons.prems have c: "c \<noteq> CHR ''{''" and s: "CHR ''{'' \<notin> set s"
    by auto
  have "\<not> prefix (pattern_of name) (c # s @ rest)"
    using c by (rule pattern_not_prefix)
  with Cons.IH [OF s] show ?case
    by (simp add: pattern_not_Nil)
qed

lemma prefix_closing:
  assumes "c \<notin> set n" and "c \<notin> set m"
  shows "prefix (n @ [c]) (m @ c # rest) = (n = m)"
  using assms
proof (induction n arbitrary: m)
  case Nil
  then show ?case by (cases m) auto
next
  case (Cons a n)
  then show ?case by (cases m) auto
qed

lemma prefix_pattern:
  assumes "brace_free n" and "brace_free m"
  shows "prefix (pattern_of n) (pattern_of m @ rest) = (n = m)"
  using assms prefix_closing [of "CHR ''}''" n m rest]
  by (simp add: pattern_of_def brace_free_def)

lemma str_replace_pattern_same:
  "str_replace (pattern_of n) v (pattern_of n @ rest) = v @ str_replace (pattern_of n) v rest"
  by (simp add: pattern_of_def)

lemma str_replace_pattern_other:
  assumes "brace_free n" and "brace_free m" and "n \<noteq> m"
  shows "str_replace (pattern_of n) v (pattern_of m @ rest)
           = pattern_of m @ str_replace (pattern_of n) v rest"
proof -
  have np: "\<not> prefix (pattern_of n) (pattern_of m @ rest)"
    using assms by (simp add: prefix_pattern)
  have "CHR ''{'' \<notin> set (m @ ''}'')"
    using assms(2) by (simp add: brace_free_def)
  from str_replace_skip [OF this, of n v rest]
  have tail: "str_replace (pattern_of n) v (m @ CHR ''}'' # rest)
      = m @ CHR ''}'' # str_replace (pattern_of n) v rest"
    by simp
  have "pattern_of m @ rest = CHR ''{'' # m @ CHR ''}'' # rest"
    by (simp add: pattern_of_def)
  with np tail show ?thesis
    by (simp add: pattern_not_Nil pattern_of_def)
qed

lemma render_Cons: "render (p # parts) = render_part p @ render parts"
  by (simp add: render_def)

lemma render_Nil: "render [] = []"
  by (simp add: render_def)

lemma well_formed_Cons: "well_formed (p # parts) = (well_formed_part p \<and> well_formed parts)"
  by (simp add: well_formed_def)

lemma str_replace_render:
  assumes "well_formed parts" and "brace_free n"
  shows "str_replace (pattern_of n) v (render parts) = render (map (substitute_part n v) parts)"
  using assms(1)
proof (induction parts)
  case Nil
  then show ?case by (simp add: render_Nil pattern_not_Nil)
next
  case (Cons p parts)
  then have wf: "well_formed_part p" and rest: "well_formed parts"
    by (simp_all add: well_formed_Cons)
  note IH = Cons.IH [OF rest]
  show ?case
  proof (cases p)
    case (Literal s)
    then have "CHR ''{'' \<notin> set s"
      using wf by (simp add: brace_free_def)
    from str_replace_skip [OF this] IH Literal show ?thesis
      by (simp add: render_Cons substitute_part_def)
  next
    case (Placeholder m)
    then have m: "brace_free m"
      using wf by simp
    show ?thesis
    proof (cases "m = n")
      case True
      with IH Placeholder show ?thesis
        by (simp add: render_Cons substitute_part_def str_replace_pattern_same)
    next
      case False
      then have "n \<noteq> m"
        by simp
      from str_replace_pattern_other [OF assms(2) m this] IH Placeholder False show ?thesis
        by (simp add: render_Cons substitute_part_def)
    qed
  qed
qed

lemma well_formed_substitute:
  assumes "well_formed parts" and "brace_free v"
  shows "well_formed (map (substitute_part n v) parts)"
  using assms by (induction parts) (simp_all add: well_formed_def substitute_part_def)

lemma render_map: "render (map f parts) = concat (map (render_part \<circ> f) parts)"
  by (simp add: render_def)

lemma brace_free_names:
  "brace_free ''first_name''" "brace_free ''last_name''" "brace_free ''company''"
  "brace_free ''position''" "brace_free ''location''"
  by (simp_all add: brace_free_def)

lemma five_passes_part:
  "render_part
     (substitute_part ''location'' v5
       (substitute_part ''position'' v4
         (substitute_part ''company'' v3
           (substitute_part ''last_name'' v2
             (substitute_part ''first_name'' v1 p)))))
   = (case p of
        Literal s \<Rightarrow> s
      | Placeholder name \<Rightarrow>
          if name = ''first_name'' then v1
          else if name = ''last_name'' then v2
          else if name = ''company'' then v3
          else if name = ''position'' then v4
          else if name = ''location'' then v5
          else pattern_of name)"
  by (cases p) (auto simp add: substitute_part_def)

lemma replace_placeholders_render:
  assumes wf: "well_formed parts"
    and v: "brace_free (first_name r)" "brace_free (last_name r)"
      "brace_free (py_or (company r) ''your company'')"
      "brace_free (py_or (position r) ''your field'')"
      "brace_free (py_or (location r) ''your area'')"
  shows "replace_placeholders (render parts) r = concat (map (fill r) parts)"
proof -
  let ?f1 = "substitute_part ''first_name'' (first_name r)"
  let ?f2 = "substitute_part ''last_name'' (last_name r)"
  let ?f3 = "substitute_part ''company'' (py_or (company r) ''your company'')"
  let ?f4 = "substitute_part ''position'' (py_or (position r) ''your field'')"
  let ?f5 = "substitute_part ''location'' (py_or (location r) ''your area'')"
  have w1: "well_formed (map ?f1 parts)"
    using wf v(1) by (rule well_formed_substitute)
  have w2: "well_formed (map ?f2 (map ?f1 parts))"
    using w1 v(2) by (rule well_formed_substitute)
  have w3: "well_formed (map ?f3 (map ?f2 (map ?f1 parts)))"
    using w2 v(3) by (rule well_formed_substitute)
  have w4: "well_formed (map ?f4 (map ?f3 (map ?f2 (map ?f1 parts))))"
    using w3 v(4) by (rule well_formed_substitute)
  have "replace_placeholders (render parts) r
      = str_replace (pattern_of ''location'') (py_or (location r) ''your area'')
          (str_replace (pattern_of ''position'') (py_or (position r) ''your field'')
            (str_replace (pattern_of ''company'') (py_or (company r) ''your company'')
              (str_replace (pattern_of ''last_name'') (last_name r)
                (str_replace (pattern_of ''first_name'') (first_name r) (render parts)))))"
    by (simp add: replace_placeholders_def replacements_def)
  also have "\<dots> = render (map ?f5 (map ?f4 (map ?f3 (map ?f2 (map ?f1 parts)))))"
    by (simp only: str_replace_render [OF wf brace_free_names(1)]
        str_replace_render [OF w1 brace_free_names(2)]
        str_replace_render [OF w2 brace_free_names(3)]
        str_replace_render [OF w3 brace_free_names(4)]
        str_replace_render [OF w4 brace_free_names(5)])
  also have "\<dots> = concat (map (fill r) parts)"
  proof -
    have "render_part (?f5 (?f4 (?f3 (?f2 (?f1 p))))) = fill r p" for p
      unfolding five_passes_part by (cases p) simp_all
    then show ?thesis
      by (simp add: render_def comp_def)
  qed
  finally show ?thesis .
qed


lemma not_word_braces: "\<not> is_word_char (CHR ''{'')" "\<not> is_word_char (CHR ''}'')"
  by (simp_all add: is_word_char_def word_chars_def latin1_word_chars_def)

lemma findall_skip:
  assumes "CHR ''{'' \<notin> set s"
  shows "findall_placeholders (s @ rest) = findall_placeholders rest"
  using assms by (induction s) auto

lemma findall_pattern:
  assumes "brace_free m"
  shows "findall_placeholders (pattern_of m @ rest)
           = (if m \<noteq> [] \<and> list_all is_word_char m then m # findall_placeholders rest
              else findall_placeholders rest)"
proof -
  let ?w = is_word_char
  let ?tail = "m @ CHR ''}'' # rest"
  have unfold: "pattern_of m @ rest = CHR ''{'' # ?tail"
    by (simp add: pattern_of_def)
  have skip: "findall_placeholders ?tail = findall_placeholders rest"
    using findall_skip [of "m @ ''}''" rest] assms by (simp add: brace_free_def)
  show ?thesis
  proof (cases "list_all ?w m")
    case True
    then have "takeWhile ?w ?tail = m" "dropWhile ?w ?tail = CHR ''}'' # rest"
      by (simp_all add: list_all_iff not_word_braces)
    then show ?thesis
      unfolding unfold using True skip by simp
  next
    case False
    then obtain x where x: "x \<in> set m" "\<not> ?w x"
      by (auto simp add: list_all_iff)
    then have dw: "dropWhile ?w ?tail = dropWhile ?w m @ CHR ''}'' # rest"
      by (simp add: dropWhile_append1)
    have ne: "dropWhile ?w m \<noteq> []"
      using x by (auto simp add: dropWhile_eq_Nil_conv)
    then have "hd (dropWhile ?w m) \<in> set m"
      using set_dropWhileD [of "hd (dropWhile ?w m)" ?w m] by simp
    then have "hd (dropWhile ?w m) \<noteq> CHR ''}''"
      using assms by (auto simp add: brace_free_def)
    then have "hd (dropWhile ?w ?tail) \<noteq> CHR ''}''"
      using ne by (simp add: dw)
    then show ?thesis
      unfolding unfold using False skip by simp
  qed
qed

lemma findall_render:
  assumes "well_formed parts"
  shows "findall_placeholders (render parts) = placeholder_names parts"
  using assms
proof (induction parts)
  case Nil
  then show ?case by (simp add: render_Nil)
next
  case (Cons p parts)
  then have wf: "well_formed_part p" and IH: "findall_placeholders (render parts) = placeholder_names parts"
    by (simp_all add: well_formed_Cons)
  show ?case
  proof (cases p)
    case (Literal s)
    then have "CHR ''{'' \<notin> set s"
      using wf by (simp add: brace_free_def)
    from findall_skip [OF this] IH Literal show ?thesis
      by (simp add: render_Cons)
  next
    case (Placeholder m)
    then have "brace_free m"
      using wf by simp
    from findall_pattern [OF this] IH Placeholder show ?thesis
      by (simp add: render_Cons)
  qed
qed

lemma simultaneous_skip:
  assumes "CHR ''{'' \<notin> set s"
  shows "simultaneous_substitution items (s @ rest) = s @ simultaneous_substitution items rest"
  using assms
proof (induction s)
  case Nil
  then show ?case by simp
next
  case (Cons c s)
  from Cons.prems have c: "c \<noteq> CHR ''{''" and s: "CHR ''{'' \<notin> set s"
    by auto
  have "find (\<lambda>(placeholder, v). prefix (pattern_of placeholder) (c # s @ rest)) items = None"
    using c by (auto simp add: find_None_iff pattern_of_def)
  with Cons.IH [OF s] show ?case
    by simp
qed

lemma find_pattern:
  assumes "brace_free m" and "\<forall>(k, v)\<in>set items. brace_free k"
  shows "find (\<lambda>(k, v). prefix (pattern_of k) (pattern_of m @ rest)) items
           = find (\<lambda>(k, v). k = m) items"
  using assms(2)
proof (induction items)
  case Nil
  then show ?case by simp
next
  case (Cons item items)
  obtain k v where item: "item = (k, v)"
    by (cases item)
  with Cons.prems have "brace_free k"
    by simp
  from prefix_pattern [OF this assms(1)] Cons item show ?case
    by simp
qed

lemma simultaneous_pattern:
  assumes "brace_free m" and "\<forall>(k, v)\<in>set items. brace_free k"
  shows "simultaneous_substitution items (pattern_of m @ rest)
           = (case find (\<lambda>(k, v). k = m) items of
                Some (k, v) \<Rightarrow> v @ simultaneous_substitution items rest
              | None \<Rightarrow> pattern_of m @ simultaneous_substitution items rest)"
proof -
  let ?tail = "m @ CHR ''}'' # rest"
  have unfold: "pattern_of m @ rest = CHR ''{'' # ?tail"
    by (simp add: pattern_of_def)
  have f: "find (\<lambda>(k, v). prefix (pattern_of k) (CHR ''{'' # ?tail)) items
      = find (\<lambda>(k, v). k = m) items"
    using find_pattern [OF assms, of rest] by (simp add: unfold)
  show ?thesis
  proof (cases "find (\<lambda>(k, v). k = m) items")
    case None
    have "simultaneous_substitution items ?tail = m @ CHR ''}'' # simultaneous_substitution items rest"
      using simultaneous_skip [of "m @ ''}''" items rest] assms(1) by (simp add: brace_free_def)
    with None f show ?thesis
      unfolding unfold by (simp add: pattern_of_def)
  next
    case (Some item)
    obtain k v where item: "item = (k, v)"
      by (cases item)
    with Some have "k = m"
      by (auto simp add: find_Some_iff)
    with Some item f show ?thesis
      unfolding unfold by simp
  qed
qed

lemma replacements_keys: "\<forall>(k, v)\<in>set (replacements r). brace_free k"
  by (simp add: replacements_def brace_free_def)

lemma simultaneous_render:
  assumes "well_formed parts"
  shows "simultaneous_substitution (replacements r) (render parts) = concat (map (fill r) parts)"
  using assms
proof (induction parts)
  case Nil
  then show ?case by (simp add: render_Nil)
next
  case (Cons p parts)
  then have wf: "well_formed_part p"
    and IH: "simultaneous_substitution (replacements r) (render parts) = concat (map (fill r) parts)"
    by (simp_all add: well_formed_Cons)
  show ?case
  proof (cases p)
    case (Literal s)
    then have "CHR ''{'' \<notin> set s"
      using wf by (simp add: brace_free_def)
    from simultaneous_skip [OF this] IH Literal show ?thesis
      by (simp add: render_Cons)
  next
    case (Placeholder m)
    then have "brace_free m"
      using wf by simp
    from simultaneous_pattern [OF this replacements_keys, of r "render parts"] IH Placeholder
    show ?thesis
      by (simp add: render_Cons replacements_def)
  qed
qed


text \<open>
  Claim C8, as amended. For a well-formed template (literal text and placeholders, no brace
  inside a literal or a name) and a recipient none of whose substituted values contains a
  brace, \<open>replace_placeholders\<close> returns the template with every placeholder of the
  fixed vocabulary replaced by the field of the recipient (the default phrase for an
  optional field that is absent or empty) and every other placeholder left as it stands;
  this is also the simultaneous substitution. \<open>validate_placeholders\<close> returns, for any
  template, exactly the names found in it that are outside the vocabulary; for a
  well-formed template these are the names of its placeholders made of word characters
  and outside the vocabulary, in their order.
\<close>

theorem replace_placeholders_well_formed:
  assumes "well_formed parts" and "plain_values r"
  shows "replace_placeholders (render parts) r = concat (map (fill r) parts)
       \<and> replace_placeholders (render parts) r
           = simultaneous_substitution (replacements r) (render parts)
       \<and> validate_placeholders (render parts)
           = filter (\<lambda>name. name \<notin> set SUPPORTED_PLACEHOLDERS) (placeholder_names parts)
       \<and> set (validate_placeholders template)
           = set (findall_placeholders template) - set SUPPORTED_PLACEHOLDERS"
proof -
  have v: "brace_free (first_name r)" "brace_free (last_name r)"
    "brace_free (py_or (company r) ''your company'')"
    "brace_free (py_or (position r) ''your field'')"
    "brace_free (py_or (location r) ''your area'')"
    using assms(2) by (simp_all add: plain_values_def replacements_def)
  have code: "replace_placeholders (render parts) r = concat (map (fill r) parts)"
    using assms(1) v by (rule replace_placeholders_render)
  have spec: "simultaneous_substitution (replacements r) (render parts) = concat (map (fill r) parts)"
    using assms(1) by (rule simultaneous_render)
  have names: "validate_placeholders (render parts)
      = filter (\<lambda>name. name \<notin> set SUPPORTED_PLACEHOLDERS) (placeholder_names parts)"
    using findall_render [OF assms(1)] by (simp add: validate_placeholders_def)
  have any: "set (validate_placeholders template)
      = set (findall_placeholders template) - set SUPPORTED_PLACEHOLDERS"
    by (auto simp add: validate_placeholders_def)
  from code spec names any show ?thesis
    by simp
qed

theorem replace_placeholders_well_formed_witness:
  "well_formed greeting \<and> plain_values anonymous
   \<and> render greeting = ''Hi {first_name} from {company}, {nickname}!''
   \<and> replace_placeholders ''Hi {first_name} from {company}, {nickname}!'' anonymous
       = ''Hi John from your company, {nickname}!''
   \<and> simultaneous_substitution (replacements anonymous)
         ''Hi {first_name} from {company}, {nickname}!''
       = ''Hi John from your company, {nickname}!''
   \<and> validate_placeholders ''Hi {first_name} from {company}, {nickname}!'' = [''nickname'']"
proof -
  have h: "well_formed greeting" "plain_values anonymous"
    by (simp_all add: well_formed_def greeting_def brace_free_def plain_values_def
        replacements_def anonymous_def john_def py_or_def)
  have r: "render greeting = ''Hi {first_name} from {company}, {nickname}!''"
    by (simp add: render_def greeting_def pattern_of_def)
  have f: "concat (map (fill anonymous) greeting) = ''Hi John from your company, {nickname}!''"
    by (simp add: greeting_def anonymous_def john_def py_or_def pattern_of_def)
  have n: "filter (\<lambda>name. name \<notin> set SUPPORTED_PLACEHOLDERS) (placeholder_names greeting)
      = [''nickname'']"
    by (simp add: greeting_def SUPPORTED_PLACEHOLDERS_def is_word_char_def word_chars_def latin1_word_chars_def)
  note t = replace_placeholders_well_formed [OF h, of "[]"]
  from t have a: "replace_placeholders (render greeting) anonymous
      = concat (map (fill anonymous) greeting)"
    by (rule conjunct1)
  from t have "replace_placeholders (render greeting) anonymous
      = simultaneous_substitution (replacements anonymous) (render greeting)"
    by (rule conjunct1 [OF conjunct2])
  from this [symmetric] a
  have b: "simultaneous_substitution (replacements anonymous) (render greeting)
      = concat (map (fill anonymous) greeting)"
    by (rule trans)
  from t have c: "validate_placeholders (render greeting)
      = filter (\<lambda>name. name \<notin> set SUPPORTED_PLACEHOLDERS) (placeholder_names greeting)"
    by (rule conjunct1 [OF conjunct2 [OF conjunct2]])
  from h r a [unfolded r f] b [unfolded r f] c [unfolded r n] show ?thesis
    by blast
qed

text \<open>
  The claim as stated fails on two inputs. A first name that is itself the text
  \<open>{location}\<close> is replaced in turn by the location; and with plain values, a template
  with a placeholder inside braces yields a new placeholder that a later pass replaces.
  In both cases the result is not the template with its placeholders substituted.
\<close>

theorem replace_placeholders_counterexample:
  "replace_placeholders ''{first_name}'' injected_location = ''Paris''
   \<and> simultaneous_substitution (replacements injected_location) ''{first_name}'' = ''{location}''
   \<and> plain_values (anonymous\<lparr>first_name := ''a''\<rparr>)
   \<and> replace_placeholders ''{comp{first_name}ny}'' (anonymous\<lparr>first_name := ''a''\<rparr>)
       = ''your company''
   \<and> simultaneous_substitution (replacements (anonymous\<lparr>first_name := ''a''\<rparr>))
         ''{comp{first_name}ny}''
       = ''{company}''"
  by (simp add: template_defs plain_values_def brace_free_def)

text \<open>
  Claim C10. The substitution is five passes of \<open>str.replace\<close> in the order
  \<open>first_name\<close>, \<open>last_name\<close>, \<open>company\<close>, \<open>position\<close>, \<open>location\<close>, each over the
  result of the one before. A recipient whose first name is the text \<open>{company}\<close> is
  accepted by the constructor, and for it the template \<open>Hi {first_name}\<close> gives
  \<open>Hi Acme\<close>: the injected text is replaced by the company, where the simultaneous
  substitution gives \<open>Hi {company}\<close>. In the other direction a company that is the text
  \<open>{first_name}\<close> stays as it is, the pass for \<open>first_name\<close> being over.
\<close>

theorem placeholder_substitution_is_sequential:
  "replace_placeholders template r
     = str_replace ''{location}'' (py_or (location r) ''your area'')
         (str_replace ''{position}'' (py_or (position r) ''your field'')
           (str_replace ''{company}'' (py_or (company r) ''your company'')
             (str_replace ''{last_name}'' (last_name r)
               (str_replace ''{first_name}'' (first_name r) template))))
   \<and> Recipient_init ''{company}'' ''Doe'' ''https://www.linkedin.com/in/johndoe/''
         (Some ''Acme'') (Some ''Software Engineer'') (Some ''San Francisco, CA'')
       = Inr injected
   \<and> replace_placeholders ''Hi {first_name}'' injected = ''Hi Acme''
   \<and> simultaneous_substitution (replacements injected) ''Hi {first_name}'' = ''Hi {company}''
   \<and> replace_placeholders ''{company}'' injected_back = ''{first_name}''"
proof -
  have passes: "replace_placeholders template r
     = str_replace ''{location}'' (py_or (location r) ''your area'')
         (str_replace ''{position}'' (py_or (position r) ''your field'')
           (str_replace ''{company}'' (py_or (company r) ''your company'')
             (str_replace ''{last_name}'' (last_name r)
               (str_replace ''{first_name}'' (first_name r) template))))"
    by (simp add: replace_placeholders_def replacements_def pattern_of_def)
  have accepted: "Recipient_init ''{company}'' ''Doe'' ''https://www.linkedin.com/in/johndoe/''
         (Some ''Acme'') (Some ''Software Engineer'') (Some ''San Francisco, CA'')
       = Inr injected"
    by (simp add: Recipient_init_def injected_def john_def strip_def is_space_def
        whitespace_chars_def is_valid_url_def strip_prefix_def is_slug_char_def is_word_char_def
        word_chars_def latin1_word_chars_def)
  have runs: "replace_placeholders ''Hi {first_name}'' injected = ''Hi Acme''"
    "simultaneous_substitution (replacements injected) ''Hi {first_name}'' = ''Hi {company}''"
    "replace_placeholders ''{company}'' injected_back = ''{first_name}''"
    by (simp_all add: template_defs)
  from passes accepted runs show ?thesis
    by blast
qed

end
